theory Spec2Isabelle
  imports Main "HOL-Library.Word" "HOL-Library.Multiset"
begin

section \<open>Data model of dbrouter\<close>

text \<open>
  A Go pointer is an option: \<open>None\<close> is \<open>nil\<close>. A \<open>*sql.DB\<close> and a \<open>*sql.Stmt\<close> are
  handles of the external SQL client library; only their identity matters here, so the
  pointee is a number. A Go \<open>error\<close> is an option as well (\<open>None\<close> is the nil error).

  Go's \<open>int\<close> is modelled by \<open>int\<close>: every \<open>int\<close> of this program is a slice length or a
  loop index below one. The counter \<open>readOnlyCount\<close> is a \<open>uint64\<close> and is modelled as a
  64-bit word, so that its addition wraps as \<open>atomic.AddUint64\<close> does.
\<close>

type_synonym 'a ptr = "'a option"
type_synonym sqlDB = nat
type_synonym sqlStmt = nat

datatype error = Error string

datatype panic =
    Panic string
  | IndexOutOfRange
  | DivideByZero
  | NilDereference
  | MakeSizeOutOfRange
  | BlockedForever

text \<open>\<open>type DBImplementation struct\<close> (db.go).\<close>

record DBImplementation =
  readWriteDB :: "sqlDB ptr"
  readOnlyDBs :: "sqlDB ptr list"
  totalConnections :: int
  readOnlyCount :: "64 word"

text \<open>
  A slice read \<open>xs[i]\<close> and a slice write \<open>xs[i] = v\<close>: Go checks the bounds and panics
  outside them.
\<close>

definition index :: "'a list \<Rightarrow> int \<Rightarrow> panic + 'a" where
  "index xs i = (if 0 \<le> i \<and> i < int (length xs) then Inr (xs ! nat i) else Inl IndexOutOfRange)"

definition assign :: "'a list \<Rightarrow> int \<Rightarrow> 'a \<Rightarrow> panic + 'a list" where
  "assign xs i v = (if 0 \<le> i \<and> i < int (length xs) then Inr (xs[nat i := v]) else Inl IndexOutOfRange)"

section \<open>resolver.go\<close>

text \<open>
  \<open>WrapDBs\<close> panics on an empty argument list; otherwise it returns a pointer to a new
  \<open>DBImplementation\<close>, whose value is modelled. The counter field is not named in the
  struct literal, so it holds the zero value.
\<close>

definition WrapDBs :: "sqlDB ptr list \<Rightarrow> panic + DBImplementation" where
  "WrapDBs dbs =
     (if length dbs = 0 then Inl (Panic ''at least one RW connection is required'')
      else Inr \<lparr> readWriteDB = dbs ! 0,
                 readOnlyDBs = drop 1 dbs,
                 totalConnections = int (length dbs),
                 readOnlyCount = 0 \<rparr>)"

section \<open>Read and write routing (db.go)\<close>

text \<open>
  \<open>roundRobin\<close>: \<open>atomic.AddUint64\<close> adds one to the counter and returns the new value;
  the remainder by \<open>uint64(n)\<close> panics when that divisor is zero, after the counter has
  been advanced; \<open>int(...)\<close> reads the 64-bit remainder back as a signed number.
  The method has a pointer receiver: it takes the receiver's value and returns the
  updated one.
\<close>

definition roundRobin :: "int \<Rightarrow> DBImplementation \<Rightarrow> panic + (int \<times> DBImplementation)" where
  "roundRobin n d =
     (let c = readOnlyCount d + 1;
          d' = d\<lparr> readOnlyCount := c \<rparr>;
          m = (word_of_int n :: 64 word)
      in if m = 0 then Inl DivideByZero else Inr (sint (c mod m), d'))"

definition ReadOnly :: "DBImplementation \<Rightarrow> panic + (sqlDB ptr \<times> DBImplementation)" where
  "ReadOnly d =
     (if totalConnections d = 1 then Inr (readWriteDB d, d)
      else case roundRobin (int (length (readOnlyDBs d))) d of
             Inl p \<Rightarrow> Inl p
           | Inr (i, d') \<Rightarrow>
               (case index (readOnlyDBs d) i of
                  Inl p \<Rightarrow> Inl p
                | Inr c \<Rightarrow> Inr (c, d')))"

definition ReadWrite :: "DBImplementation \<Rightarrow> sqlDB ptr" where
  "ReadWrite d = readWriteDB d"

text \<open>\<open>Query\<close>, \<open>QueryContext\<close>, \<open>QueryRow\<close> and \<open>QueryRowContext\<close> call the library
  method of the same name on the handle \<open>ReadOnly()\<close> returns. The library method is a
  parameter: whatever it does, the model does it on that handle.\<close>

definition Query ::
  "(sqlDB ptr \<Rightarrow> string \<Rightarrow> 'a list \<Rightarrow> 'r) \<Rightarrow> string \<Rightarrow> 'a list \<Rightarrow> DBImplementation
     \<Rightarrow> panic + ('r \<times> DBImplementation)" where
  "Query sql_Query query args d =
     (case ReadOnly d of Inl p \<Rightarrow> Inl p | Inr (c, d') \<Rightarrow> Inr (sql_Query c query args, d'))"

definition QueryContext ::
  "(sqlDB ptr \<Rightarrow> 'ctx \<Rightarrow> string \<Rightarrow> 'a list \<Rightarrow> 'r) \<Rightarrow> 'ctx \<Rightarrow> string \<Rightarrow> 'a list
     \<Rightarrow> DBImplementation \<Rightarrow> panic + ('r \<times> DBImplementation)" where
  "QueryContext sql_QueryContext ctx query args d =
     (case ReadOnly d of Inl p \<Rightarrow> Inl p
      | Inr (c, d') \<Rightarrow> Inr (sql_QueryContext c ctx query args, d'))"

definition QueryRow ::
  "(sqlDB ptr \<Rightarrow> string \<Rightarrow> 'a list \<Rightarrow> 'r) \<Rightarrow> string \<Rightarrow> 'a list \<Rightarrow> DBImplementation
     \<Rightarrow> panic + ('r \<times> DBImplementation)" where
  "QueryRow sql_QueryRow query args d =
     (case ReadOnly d of Inl p \<Rightarrow> Inl p | Inr (c, d') \<Rightarrow> Inr (sql_QueryRow c query args, d'))"

definition QueryRowContext ::
  "(sqlDB ptr \<Rightarrow> 'ctx \<Rightarrow> string \<Rightarrow> 'a list \<Rightarrow> 'r) \<Rightarrow> 'ctx \<Rightarrow> string \<Rightarrow> 'a list
     \<Rightarrow> DBImplementation \<Rightarrow> panic + ('r \<times> DBImplementation)" where
  "QueryRowContext sql_QueryRowContext ctx query args d =
     (case ReadOnly d of Inl p \<Rightarrow> Inl p
      | Inr (c, d') \<Rightarrow> Inr (sql_QueryRowContext c ctx query args, d'))"

text \<open>\<open>Exec\<close>, \<open>ExecContext\<close>, \<open>Begin\<close>, \<open>BeginTx\<close> and \<open>Driver\<close> do not change the
  receiver.\<close>

definition Exec ::
  "(sqlDB ptr \<Rightarrow> string \<Rightarrow> 'a list \<Rightarrow> 'r) \<Rightarrow> DBImplementation \<Rightarrow> string \<Rightarrow> 'a list \<Rightarrow> 'r" where
  "Exec sql_Exec d query args = sql_Exec (ReadWrite d) query args"

definition ExecContext ::
  "(sqlDB ptr \<Rightarrow> 'ctx \<Rightarrow> string \<Rightarrow> 'a list \<Rightarrow> 'r) \<Rightarrow> DBImplementation \<Rightarrow> 'ctx \<Rightarrow> string
     \<Rightarrow> 'a list \<Rightarrow> 'r" where
  "ExecContext sql_ExecContext d ctx query args = sql_ExecContext (ReadWrite d) ctx query args"

definition Begin :: "(sqlDB ptr \<Rightarrow> 'r) \<Rightarrow> DBImplementation \<Rightarrow> 'r" where
  "Begin sql_Begin d = sql_Begin (ReadWrite d)"

definition BeginTx ::
  "(sqlDB ptr \<Rightarrow> 'ctx \<Rightarrow> 'opts \<Rightarrow> 'r) \<Rightarrow> DBImplementation \<Rightarrow> 'ctx \<Rightarrow> 'opts \<Rightarrow> 'r" where
  "BeginTx sql_BeginTx d ctx opts = sql_BeginTx (ReadWrite d) ctx opts"

definition Driver :: "(sqlDB ptr \<Rightarrow> 'r) \<Rightarrow> DBImplementation \<Rightarrow> 'r" where
  "Driver sql_Driver d = sql_Driver (readWriteDB d)"

section \<open>Pool configuration (db.go)\<close>

text \<open>
  The library's setters return nothing; what they do is a change of the outside world
  \<open>'w\<close>. The first three setters range over the replica slice by value, the fourth by
  index (always in bounds, the index coming from \<open>range\<close>).
\<close>

definition SetMaxIdleConns ::
  "(sqlDB ptr \<Rightarrow> int \<Rightarrow> 'w \<Rightarrow> 'w) \<Rightarrow> int \<Rightarrow> DBImplementation \<Rightarrow> 'w \<Rightarrow> 'w" where
  "SetMaxIdleConns sql_SetMaxIdleConns n d w =
     foldl (\<lambda>w roDB. sql_SetMaxIdleConns roDB n w)
       (sql_SetMaxIdleConns (readWriteDB d) n w) (readOnlyDBs d)"

definition SetMaxOpenConns ::
  "(sqlDB ptr \<Rightarrow> int \<Rightarrow> 'w \<Rightarrow> 'w) \<Rightarrow> int \<Rightarrow> DBImplementation \<Rightarrow> 'w \<Rightarrow> 'w" where
  "SetMaxOpenConns sql_SetMaxOpenConns n d w =
     foldl (\<lambda>w roDB. sql_SetMaxOpenConns roDB n w)
       (sql_SetMaxOpenConns (readWriteDB d) n w) (readOnlyDBs d)"

definition SetConnMaxLifetime ::
  "(sqlDB ptr \<Rightarrow> 't \<Rightarrow> 'w \<Rightarrow> 'w) \<Rightarrow> 't \<Rightarrow> DBImplementation \<Rightarrow> 'w \<Rightarrow> 'w" where
  "SetConnMaxLifetime sql_SetConnMaxLifetime t d w =
     foldl (\<lambda>w roDB. sql_SetConnMaxLifetime roDB t w)
       (sql_SetConnMaxLifetime (readWriteDB d) t w) (readOnlyDBs d)"

definition SetConnMaxIdleTime ::
  "(sqlDB ptr \<Rightarrow> 't \<Rightarrow> 'w \<Rightarrow> 'w) \<Rightarrow> 't \<Rightarrow> DBImplementation \<Rightarrow> 'w \<Rightarrow> 'w" where
  "SetConnMaxIdleTime sql_SetConnMaxIdleTime t d w =
     foldl (\<lambda>w i. sql_SetConnMaxIdleTime (readOnlyDBs d ! i) t w)
       (sql_SetConnMaxIdleTime (readWriteDB d) t w) [0 ..< length (readOnlyDBs d)]"

section \<open>The fan-out executor \<open>doConcurrent\<close>\<close>

text \<open>
  \<open>doConcurrent(n, fn)\<close> makes a channel of capacity \<open>n\<close> (a panic when \<open>n\<close> is negative),
  starts one goroutine for each index \<open>0 .. n - 1\<close>, each of which runs \<open>fn(i)\<close> and
  sends the result, and then receives \<open>n\<close> values, keeping the last one that is not nil.

  The program fixes neither the order in which the goroutines run \<open>fn\<close> nor the order in
  which their results reach the channel. Both are decided by the scheduler, a parameter
  of the model. A scheduler cannot drop or repeat anything: it only picks, again and
  again, one of the things that are still waiting. \<open>scheduled picks pending\<close> is the
  order that results: each pick, taken modulo the number of things waiting, names the
  next one; when the picks run out the rest go in the order they wait in.
\<close>

record scheduler =
  run_picks :: "nat list"
  send_picks :: "nat list"

fun scheduled :: "nat list \<Rightarrow> 'a list \<Rightarrow> 'a list" where
  "scheduled picks [] = []"
| "scheduled [] pending = pending"
| "scheduled (c # picks) pending =
     (let k = c mod length pending
      in pending ! k # scheduled picks (take k pending @ drop (Suc k) pending))"

text \<open>
  The goroutines, in the order in which they run: each \<open>fn(i)\<close> is one step, what it does
  to captured variables and to the outside is an update of the state \<open>'w\<close>, and its result
  waits to be sent. A panic in a goroutine ends the program.
\<close>

fun goroutines ::
  "(int \<Rightarrow> 'w \<Rightarrow> panic + (error option \<times> 'w)) \<Rightarrow> int list \<Rightarrow> 'w
     \<Rightarrow> panic + (error option list \<times> 'w)" where
  "goroutines fn [] w = Inr ([], w)"
| "goroutines fn (i # order) w =
     (case fn i w of
        Inl p \<Rightarrow> Inl p
      | Inr (e, w') \<Rightarrow>
          (case goroutines fn order w' of
             Inl p \<Rightarrow> Inl p
           | Inr (es, w'') \<Rightarrow> Inr (e # es, w'')))"

text \<open>
  The receiving loop \<open>for i := 0; i < n; i++ { if e := <-errors; e != nil { err = e } }\<close>
  on the values in the order they reach the channel: \<open>None\<close> when the loop waits for a
  value that is never sent.
\<close>

fun receive :: "nat \<Rightarrow> error option list \<Rightarrow> error option \<Rightarrow> error option option" where
  "receive 0 channel err = Some err"
| "receive (Suc k) [] err = None"
| "receive (Suc k) (e # channel) err = receive k channel (if e \<noteq> None then e else err)"

text \<open>
  The launch loop starts the goroutines \<open>0 .. n - 1\<close>; the scheduler orders their runs and
  then the sending of their results.
\<close>

definition doConcurrent ::
  "int \<Rightarrow> (int \<Rightarrow> 'w \<Rightarrow> panic + (error option \<times> 'w)) \<Rightarrow> scheduler \<Rightarrow> 'w
     \<Rightarrow> panic + (error option \<times> 'w)" where
  "doConcurrent n fn sched w =
     (if n < 0 then Inl MakeSizeOutOfRange
      else case goroutines fn (scheduled (run_picks sched) [0 .. n - 1]) w of
             Inl p \<Rightarrow> Inl p
           | Inr (results, w') \<Rightarrow>
               (case receive (nat n) (scheduled (send_picks sched) results) None of
                  None \<Rightarrow> Inl BlockedForever
                | Some err \<Rightarrow> Inr (err, w')))"

section \<open>Lifecycle operations (db.go)\<close>

text \<open>The library's \<open>Close\<close>, \<open>Ping\<close> and \<open>PingContext\<close> are parameters giving the error
  each handle answers with. The closures capture nothing they change, so the state of
  the fan-out is the unit.\<close>

definition Close ::
  "(sqlDB ptr \<Rightarrow> error option) \<Rightarrow> DBImplementation \<Rightarrow> scheduler \<Rightarrow> panic + error option" where
  "Close sql_Close d sched =
     (case doConcurrent (totalConnections d)
             (\<lambda>i w. if i = 0 then Inr (sql_Close (readWriteDB d), w)
                     else case index (readOnlyDBs d) (i - 1) of
                            Inl p \<Rightarrow> Inl p
                          | Inr c \<Rightarrow> Inr (sql_Close c, w))
             sched () of
        Inl p \<Rightarrow> Inl p
      | Inr (err, _) \<Rightarrow> Inr err)"

definition Ping ::
  "(sqlDB ptr \<Rightarrow> error option) \<Rightarrow> DBImplementation \<Rightarrow> scheduler \<Rightarrow> panic + error option" where
  "Ping sql_Ping d sched =
     (case doConcurrent (totalConnections d)
             (\<lambda>i w. if i = 0 then Inr (sql_Ping (readWriteDB d), w)
                     else case index (readOnlyDBs d) (i - 1) of
                            Inl p \<Rightarrow> Inl p
                          | Inr c \<Rightarrow> Inr (sql_Ping c, w))
             sched () of
        Inl p \<Rightarrow> Inl p
      | Inr (err, _) \<Rightarrow> Inr err)"

definition PingContext ::
  "(sqlDB ptr \<Rightarrow> 'ctx \<Rightarrow> error option) \<Rightarrow> DBImplementation \<Rightarrow> 'ctx \<Rightarrow> scheduler
     \<Rightarrow> panic + error option" where
  "PingContext sql_PingContext d ctx sched =
     (case doConcurrent (totalConnections d)
             (\<lambda>i w. if i = 0 then Inr (sql_PingContext (readWriteDB d) ctx, w)
                     else case index (readOnlyDBs d) (i - 1) of
                            Inl p \<Rightarrow> Inl p
                          | Inr c \<Rightarrow> Inr (sql_PingContext c ctx, w))
             sched () of
        Inl p \<Rightarrow> Inl p
      | Inr (err, _) \<Rightarrow> Inr err)"

section \<open>Prepared statements\<close>

text \<open>
  \<open>type stmt struct\<close>: the field \<open>db\<close> points to the connection set that prepared the
  statement. Connection sets live in a heap, a function from addresses to values, and a
  method called through a pointer reads and writes the heap at that address.
\<close>

type_synonym addr = nat
type_synonym heap = "addr \<Rightarrow> DBImplementation"

record stmt =
  db :: "addr ptr"
  rwstmt :: "sqlStmt ptr"
  rostmts :: "sqlStmt ptr list"

definition through ::
  "addr ptr \<Rightarrow> (DBImplementation \<Rightarrow> panic + ('a \<times> DBImplementation)) \<Rightarrow> heap
     \<Rightarrow> panic + ('a \<times> heap)" where
  "through p m h =
     (case p of
        None \<Rightarrow> Inl NilDereference
      | Some a \<Rightarrow> (case m (h a) of Inl e \<Rightarrow> Inl e | Inr (x, d') \<Rightarrow> Inr (x, h(a := d'))))"

text \<open>
  \<open>Prepare\<close>: \<open>this\<close> is the receiver pointer, kept in the statement, and \<open>d\<close> the value
  it points to, which \<open>Prepare\<close> only reads. The closure passed to \<open>doConcurrent\<close>
  is given a name; it writes the captured \<open>stmt.rwstmt\<close> and \<open>roStmts[i-1]\<close>, which are
  the state of the fan-out. The library's \<open>Prepare\<close> is a parameter giving, for a handle
  and a query, the prepared handle and the error.
\<close>

definition Prepare_closure ::
  "(sqlDB ptr \<Rightarrow> string \<Rightarrow> sqlStmt ptr \<times> error option) \<Rightarrow> DBImplementation \<Rightarrow> string
     \<Rightarrow> int \<Rightarrow> stmt \<times> sqlStmt ptr list \<Rightarrow> panic + (error option \<times> (stmt \<times> sqlStmt ptr list))" where
  "Prepare_closure sql_Prepare d query i = (\<lambda>(s, roStmts).
     if i = 0 then
       (let (r, err) = sql_Prepare (readWriteDB d) query
        in Inr (err, (s\<lparr> rwstmt := r \<rparr>, roStmts)))
     else
       (case index (readOnlyDBs d) (i - 1) of
          Inl p \<Rightarrow> Inl p
        | Inr c \<Rightarrow>
            (let (r, err) = sql_Prepare c query
             in case assign roStmts (i - 1) r of
                  Inl p \<Rightarrow> Inl p
                | Inr roStmts' \<Rightarrow> Inr (err, (s, roStmts')))))"

definition Prepare ::
  "(sqlDB ptr \<Rightarrow> string \<Rightarrow> sqlStmt ptr \<times> error option) \<Rightarrow> addr \<Rightarrow> DBImplementation
     \<Rightarrow> string \<Rightarrow> scheduler \<Rightarrow> panic + (stmt ptr \<times> error option)" where
  "Prepare sql_Prepare this d query sched =
     (let s0 = \<lparr> db = Some this, rwstmt = None, rostmts = [] \<rparr>;
          roStmts0 = replicate (length (readOnlyDBs d)) None
      in case doConcurrent (totalConnections d) (Prepare_closure sql_Prepare d query)
                sched (s0, roStmts0) of
           Inl p \<Rightarrow> Inl p
         | Inr (err, (s, roStmts)) \<Rightarrow>
             if err \<noteq> None then Inr (None, err)
             else Inr (Some (s\<lparr> rostmts := roStmts \<rparr>), None))"

definition PrepareContext_closure ::
  "(sqlDB ptr \<Rightarrow> 'ctx \<Rightarrow> string \<Rightarrow> sqlStmt ptr \<times> error option) \<Rightarrow> DBImplementation \<Rightarrow> 'ctx
     \<Rightarrow> string \<Rightarrow> int \<Rightarrow> stmt \<times> sqlStmt ptr list
     \<Rightarrow> panic + (error option \<times> (stmt \<times> sqlStmt ptr list))" where
  "PrepareContext_closure sql_PrepareContext d ctx query i = (\<lambda>(s, roStmts).
     if i = 0 then
       (let (r, err) = sql_PrepareContext (readWriteDB d) ctx query
        in Inr (err, (s\<lparr> rwstmt := r \<rparr>, roStmts)))
     else
       (case index (readOnlyDBs d) (i - 1) of
          Inl p \<Rightarrow> Inl p
        | Inr c \<Rightarrow>
            (let (r, err) = sql_PrepareContext c ctx query
             in case assign roStmts (i - 1) r of
                  Inl p \<Rightarrow> Inl p
                | Inr roStmts' \<Rightarrow> Inr (err, (s, roStmts')))))"

definition PrepareContext ::
  "(sqlDB ptr \<Rightarrow> 'ctx \<Rightarrow> string \<Rightarrow> sqlStmt ptr \<times> error option) \<Rightarrow> addr \<Rightarrow> DBImplementation
     \<Rightarrow> 'ctx \<Rightarrow> string \<Rightarrow> scheduler \<Rightarrow> panic + (stmt ptr \<times> error option)" where
  "PrepareContext sql_PrepareContext this d ctx query sched =
     (let s0 = \<lparr> db = Some this, rwstmt = None, rostmts = [] \<rparr>;
          roStmts0 = replicate (length (readOnlyDBs d)) None
      in case doConcurrent (totalConnections d) (PrepareContext_closure sql_PrepareContext d ctx query)
                sched (s0, roStmts0) of
           Inl p \<Rightarrow> Inl p
         | Inr (err, (s, roStmts)) \<Rightarrow>
             if err \<noteq> None then Inr (None, err)
             else Inr (Some (s\<lparr> rostmts := roStmts \<rparr>), None))"

text \<open>The statement's methods (the source file of \<open>type stmt\<close>).\<close>

definition RWStmt :: "stmt \<Rightarrow> sqlStmt ptr" where
  "RWStmt s = rwstmt s"

definition ROStmt :: "stmt \<Rightarrow> heap \<Rightarrow> panic + (sqlStmt ptr \<times> heap)" where
  "ROStmt s h =
     (if length (rostmts s) = 0 then Inr (rwstmt s, h)
      else case through (db s) (roundRobin (int (length (rostmts s)))) h of
             Inl p \<Rightarrow> Inl p
           | Inr (i, h') \<Rightarrow>
               (case index (rostmts s) i of
                  Inl p \<Rightarrow> Inl p
                | Inr c \<Rightarrow> Inr (c, h')))"

definition stmt_Exec :: "(sqlStmt ptr \<Rightarrow> 'a list \<Rightarrow> 'r) \<Rightarrow> stmt \<Rightarrow> 'a list \<Rightarrow> 'r" where
  "stmt_Exec sql_Exec s args = sql_Exec (RWStmt s) args"

definition stmt_ExecContext ::
  "(sqlStmt ptr \<Rightarrow> 'ctx \<Rightarrow> 'a list \<Rightarrow> 'r) \<Rightarrow> stmt \<Rightarrow> 'ctx \<Rightarrow> 'a list \<Rightarrow> 'r" where
  "stmt_ExecContext sql_ExecContext s ctx args = sql_ExecContext (RWStmt s) ctx args"

definition stmt_Query ::
  "(sqlStmt ptr \<Rightarrow> 'a list \<Rightarrow> 'r) \<Rightarrow> stmt \<Rightarrow> 'a list \<Rightarrow> heap \<Rightarrow> panic + ('r \<times> heap)" where
  "stmt_Query sql_Query s args h =
     (case ROStmt s h of Inl p \<Rightarrow> Inl p | Inr (c, h') \<Rightarrow> Inr (sql_Query c args, h'))"

definition stmt_QueryContext ::
  "(sqlStmt ptr \<Rightarrow> 'ctx \<Rightarrow> 'a list \<Rightarrow> 'r) \<Rightarrow> stmt \<Rightarrow> 'ctx \<Rightarrow> 'a list \<Rightarrow> heap
     \<Rightarrow> panic + ('r \<times> heap)" where
  "stmt_QueryContext sql_QueryContext s ctx args h =
     (case ROStmt s h of Inl p \<Rightarrow> Inl p | Inr (c, h') \<Rightarrow> Inr (sql_QueryContext c ctx args, h'))"

definition stmt_QueryRow ::
  "(sqlStmt ptr \<Rightarrow> 'a list \<Rightarrow> 'r) \<Rightarrow> stmt \<Rightarrow> 'a list \<Rightarrow> heap \<Rightarrow> panic + ('r \<times> heap)" where
  "stmt_QueryRow sql_QueryRow s args h =
     (case ROStmt s h of Inl p \<Rightarrow> Inl p | Inr (c, h') \<Rightarrow> Inr (sql_QueryRow c args, h'))"

definition stmt_QueryRowContext ::
  "(sqlStmt ptr \<Rightarrow> 'ctx \<Rightarrow> 'a list \<Rightarrow> 'r) \<Rightarrow> stmt \<Rightarrow> 'ctx \<Rightarrow> 'a list \<Rightarrow> heap
     \<Rightarrow> panic + ('r \<times> heap)" where
  "stmt_QueryRowContext sql_QueryRowContext s ctx args h =
     (case ROStmt s h of Inl p \<Rightarrow> Inl p
      | Inr (c, h') \<Rightarrow> Inr (sql_QueryRowContext c ctx args, h'))"

definition stmt_Close ::
  "(sqlStmt ptr \<Rightarrow> error option) \<Rightarrow> stmt \<Rightarrow> scheduler \<Rightarrow> heap \<Rightarrow> panic + error option" where
  "stmt_Close sql_Close s sched h =
     (case db s of
        None \<Rightarrow> Inl NilDereference
      | Some a \<Rightarrow>
          (case doConcurrent (totalConnections (h a))
                  (\<lambda>i w. if i = 0 then Inr (sql_Close (rwstmt s), w)
                          else case index (rostmts s) (i - 1) of
                                 Inl p \<Rightarrow> Inl p
                               | Inr c \<Rightarrow> Inr (sql_Close c, w))
                  sched () of
             Inl p \<Rightarrow> Inl p
           | Inr (err, _) \<Rightarrow> Inr err))"

section \<open>Construction from a connection string (db.go)\<close>

text \<open>
  \<open>strings.Split\<close> of the Go standard library, for a separator of one character: the
  pieces between the separators, so one piece more than there are separators.
\<close>

fun Split :: "string \<Rightarrow> char \<Rightarrow> string list" where
  "Split [] sep = [[]]"
| "Split (c # cs) sep =
     (if c = sep then [] # Split cs sep
      else case Split cs sep of
             [] \<Rightarrow> [[c]]
           | piece # pieces \<Rightarrow> (c # piece) # pieces)"

text \<open>\<open>make([]*sql.DB, n)\<close>: \<open>n\<close> nil pointers, and a panic when \<open>n\<close> is negative.\<close>

definition make_slice :: "int \<Rightarrow> panic + 'a ptr list" where
  "make_slice n = (if n < 0 then Inl MakeSizeOutOfRange else Inr (replicate (nat n) None))"

text \<open>
  \<open>openConnections\<close>: the closure, given a name here, writes the fields of the
  receiver, which is the state of the fan-out. The library's \<open>sql.Open\<close> is a parameter giving the handle and the
  error for a driver name and a connection string.
\<close>

definition openConnections_closure ::
  "(string \<Rightarrow> string \<Rightarrow> sqlDB ptr \<times> error option) \<Rightarrow> string \<Rightarrow> string list \<Rightarrow> int
     \<Rightarrow> DBImplementation \<Rightarrow> panic + (error option \<times> DBImplementation)" where
  "openConnections_closure sql_Open driverName conns i d =
     (case index conns i of
        Inl p \<Rightarrow> Inl p
      | Inr dsn \<Rightarrow>
          (let (c, err) = sql_Open driverName dsn
           in if i = 0 then Inr (err, d\<lparr> readWriteDB := c \<rparr>)
              else case assign (readOnlyDBs d) (i - 1) c of
                     Inl p \<Rightarrow> Inl p
                   | Inr ros \<Rightarrow> Inr (err, d\<lparr> readOnlyDBs := ros \<rparr>)))"

definition openConnections ::
  "(string \<Rightarrow> string \<Rightarrow> sqlDB ptr \<times> error option) \<Rightarrow> string \<Rightarrow> string list \<Rightarrow> scheduler
     \<Rightarrow> DBImplementation \<Rightarrow> panic + (error option \<times> DBImplementation)" where
  "openConnections sql_Open driverName conns sched d =
     doConcurrent (totalConnections d) (openConnections_closure sql_Open driverName conns) sched d"

definition Open ::
  "(string \<Rightarrow> string \<Rightarrow> sqlDB ptr \<times> error option) \<Rightarrow> string \<Rightarrow> string \<Rightarrow> scheduler
     \<Rightarrow> panic + (DBImplementation ptr \<times> error option)" where
  "Open sql_Open driverName dataSourceName sched =
     (let conns = Split dataSourceName (CHR '';'')
      in case make_slice (int (length conns) - 1) of
           Inl p \<Rightarrow> Inl p
         | Inr ros \<Rightarrow>
             (let d = \<lparr> readWriteDB = None, readOnlyDBs = ros,
                        totalConnections = int (length conns), readOnlyCount = 0 \<rparr>
              in case openConnections sql_Open driverName conns sched d of
                   Inl p \<Rightarrow> Inl p
                 | Inr (err, d') \<Rightarrow>
                     if err \<noteq> None then Inr (None, err) else Inr (Some d', None)))"

section \<open>The counter as shared memory\<close>

text \<open>
  \<open>roundRobin\<close> touches memory that goroutines share in one place, the call
  \<open>atomic.AddUint64(&readOnlyCount, 1)\<close>: package \<open>sync/atomic\<close> performs the addition as
  one step, which no other access to the counter can fall into, and returns the new
  value. To state what that gives to calls that run at the same time, a call in progress
  is the list of the accesses to the counter it has still to make, with a register for
  the value its last access gave it, and the accesses of the calls interleave in any
  order: a list of call numbers says whose turn it is, a turn given to a call that has
  returned or does not exist doing nothing.

  Next to the atomic addition stand a plain read and a plain write of the register plus
  one. The source uses neither on the counter; together they are the read-then-write
  increment the spec warns against, kept for comparison.
\<close>

datatype access = AddUint64 "64 word" | Load | StoreSucc

type_synonym call = "access list \<times> 64 word"

fun exec :: "access \<Rightarrow> 64 word \<Rightarrow> 64 word \<Rightarrow> 64 word \<times> 64 word" where
  "exec (AddUint64 delta) counter reg = (counter + delta, counter + delta)"
| "exec Load counter reg = (counter, counter)"
| "exec StoreSucc counter reg = (reg + 1, reg + 1)"

definition step :: "nat \<Rightarrow> 64 word \<times> call list \<Rightarrow> 64 word \<times> call list" where
  "step t = (\<lambda>(counter, calls).
     if t < length calls then
       (case calls ! t of
          ([], reg) \<Rightarrow> (counter, calls)
        | (a # rest, reg) \<Rightarrow>
            (let (counter', reg') = exec a counter reg
             in (counter', calls[t := (rest, reg')])))
     else (counter, calls))"

definition interleaving :: "nat list \<Rightarrow> 64 word \<times> call list \<Rightarrow> 64 word \<times> call list" where
  "interleaving turns start = fold step turns start"

text \<open>The accesses of one call of \<open>roundRobin\<close>, and those of a read-then-write increment.\<close>

definition roundRobin_accesses :: "access list" where
  "roundRobin_accesses = [AddUint64 1]"

definition read_then_write :: "access list" where
  "read_then_write = [Load, StoreSucc]"

section \<open>Notions used to state the properties\<close>

text \<open>The relation between the two size fields that the constructors establish.\<close>

definition conn_inv :: "DBImplementation \<Rightarrow> bool" where
  "conn_inv d \<longleftrightarrow> totalConnections d = 1 + int (length (readOnlyDBs d))"

text \<open>\<open>k\<close> calls of \<open>ReadOnly()\<close> one after the other, with the handles they return.\<close>

fun ReadOnly_calls :: "nat \<Rightarrow> DBImplementation \<Rightarrow> panic + (sqlDB ptr list \<times> DBImplementation)" where
  "ReadOnly_calls 0 d = Inr ([], d)"
| "ReadOnly_calls (Suc k) d =
     (case ReadOnly d of
        Inl p \<Rightarrow> Inl p
      | Inr (c, d') \<Rightarrow>
          (case ReadOnly_calls k d' of
             Inl p \<Rightarrow> Inl p
           | Inr (cs, d'') \<Rightarrow> Inr (c # cs, d'')))"

text \<open>The error that survives the receiving loop when it has received the values \<open>es\<close>:
  the last one that is not nil, or the one it started with.\<close>

fun collect :: "error option list \<Rightarrow> error option \<Rightarrow> error option" where
  "collect [] err = err"
| "collect (e # es) err = collect es (if e \<noteq> None then e else err)"

text \<open>Connection number \<open>i\<close> of a connection set: the primary for 0, replica \<open>i - 1\<close>
  otherwise.\<close>

definition connection :: "DBImplementation \<Rightarrow> int \<Rightarrow> sqlDB ptr" where
  "connection d i = (if i = 0 then readWriteDB d else readOnlyDBs d ! nat (i - 1))"

text \<open>The counter values that the calls which have returned were given.\<close>

definition returned :: "call list \<Rightarrow> 64 word multiset" where
  "returned calls = image_mset snd (filter_mset (\<lambda>call. fst call = []) (mset calls))"

text \<open>
  An instrumented operation: \<open>traced fn\<close> does what \<open>fn\<close> does and also appends the index
  it was called with, and the error it returned, to a log.
\<close>

definition traced ::
  "(int \<Rightarrow> 'w \<Rightarrow> panic + (error option \<times> 'w)) \<Rightarrow> int
     \<Rightarrow> (int \<times> error option) list \<times> 'w
     \<Rightarrow> panic + (error option \<times> ((int \<times> error option) list \<times> 'w))" where
  "traced fn i = (\<lambda>(log, w).
     case fn i w of
       Inl p \<Rightarrow> Inl p
     | Inr (e, w') \<Rightarrow> Inr (e, (log @ [(i, e)], w')))"

section \<open>The round-robin index\<close>

text \<open>For a slice length \<open>n\<close> (positive, below \<open>2 ^ 63\<close>) the conversions of
  \<open>roundRobin\<close> are exact: the index is the new counter value modulo \<open>n\<close>.\<close>

lemma unat_word_of_int_len:
  assumes "0 < n" "n < 2 ^ 63"
  shows "unat (word_of_int n :: 64 word) = nat n"
proof -
  have "n < 2 ^ 64" using assms by simp
  then have "n mod 2 ^ 64 = n" using assms by simp
  then show ?thesis by (simp add: unat_eq_nat_uint uint_word_of_int)
qed

lemma sint_mod_len:
  fixes c :: "64 word"
  assumes "0 < n" "n < 2 ^ 63"
  shows "sint (c mod (word_of_int n :: 64 word)) = int (unat c mod nat n)"
proof -
  let ?r = "c mod (word_of_int n :: 64 word)"
  have u: "unat ?r = unat c mod nat n"
    by (simp add: unat_mod_distrib unat_word_of_int_len [OF assms])
  have "unat c mod nat n < nat n" using assms by simp
  then have "int (unat ?r) < n" using u by linarith
  moreover have ui: "uint ?r = int (unat ?r)" by simp
  ultimately have lt: "uint ?r < 2 ^ 63" using assms(2) by linarith
  have ge: "- (2 ^ 63) \<le> uint ?r"
    by (rule order_trans [of _ 0]) simp_all
  have "sint ?r = signed_take_bit 63 (uint ?r)" by (simp add: sint_uint)
  also have "\<dots> = uint ?r" using lt ge by (rule_tac signed_take_bit_int_eq_self)
  finally show ?thesis using u ui by simp
qed

lemma roundRobin_len:
  assumes "0 < n" "n < 2 ^ 63"
  shows "roundRobin n d =
           Inr (int (unat (readOnlyCount d + 1) mod nat n), d\<lparr> readOnlyCount := readOnlyCount d + 1 \<rparr>)"
proof -
  have "unat (word_of_int n :: 64 word) \<noteq> 0"
    using assms by (simp add: unat_word_of_int_len)
  then have "(word_of_int n :: 64 word) \<noteq> 0" by (metis unat_0)
  then show ?thesis
    by (simp add: roundRobin_def Let_def sint_mod_len [OF assms])
qed

lemma ReadOnly_replicas:
  assumes "conn_inv d" "0 < length (readOnlyDBs d)" "int (length (readOnlyDBs d)) < 2 ^ 63"
  shows "ReadOnly d =
           Inr (readOnlyDBs d ! (unat (readOnlyCount d + 1) mod length (readOnlyDBs d)),
                d\<lparr> readOnlyCount := readOnlyCount d + 1 \<rparr>)"
proof -
  let ?R = "length (readOnlyDBs d)"
  have ne: "totalConnections d \<noteq> 1" using assms by (simp add: conn_inv_def)
  have rr: "roundRobin (int ?R) d =
              Inr (int (unat (readOnlyCount d + 1) mod ?R), d\<lparr> readOnlyCount := readOnlyCount d + 1 \<rparr>)"
    using roundRobin_len [of "int ?R" d] assms by simp
  have "unat (readOnlyCount d + 1) mod ?R < ?R" using assms by simp
  then show ?thesis using ne rr by (simp add: ReadOnly_def index_def)
qed

lemma ReadOnly_calls_replicas:
  assumes "conn_inv d" "0 < length (readOnlyDBs d)" "int (length (readOnlyDBs d)) < 2 ^ 63"
  shows "ReadOnly_calls k d =
           Inr (map (\<lambda>j. readOnlyDBs d ! (unat (readOnlyCount d + 1 + of_nat j) mod length (readOnlyDBs d))) [0 ..< k],
                d\<lparr> readOnlyCount := readOnlyCount d + of_nat k \<rparr>)"
  using assms
proof (induction k arbitrary: d)
  case 0
  then show ?case by simp
next
  case (Suc k)
  let ?d' = "d\<lparr> readOnlyCount := readOnlyCount d + 1 \<rparr>"
  have inv': "conn_inv ?d'" "0 < length (readOnlyDBs ?d')" "int (length (readOnlyDBs ?d')) < 2 ^ 63"
    using Suc.prems by (simp_all add: conn_inv_def)
  have shift: "[0 ..< Suc k] = 0 # map Suc [0 ..< k]"
    by (simp add: upt_conv_Cons map_Suc_upt del: upt_Suc)
  have step: "ReadOnly d = Inr (readOnlyDBs d ! (unat (readOnlyCount d + 1) mod length (readOnlyDBs d)), ?d')"
    by (rule ReadOnly_replicas [OF Suc.prems])
  have rest: "ReadOnly_calls k ?d' =
      Inr (map (\<lambda>j. readOnlyDBs d ! (unat (readOnlyCount d + 1 + 1 + of_nat j) mod length (readOnlyDBs d))) [0 ..< k],
           d\<lparr> readOnlyCount := readOnlyCount d + 1 + of_nat k \<rparr>)"
    using Suc.IH [OF inv'] by simp
  have "ReadOnly_calls (Suc k) d =
          (case ReadOnly_calls k ?d' of Inl p \<Rightarrow> Inl p
           | Inr (cs, d'') \<Rightarrow> Inr (readOnlyDBs d ! (unat (readOnlyCount d + 1) mod length (readOnlyDBs d)) # cs, d''))"
    by (simp add: step)
  then show ?case
    unfolding rest shift
    by (simp add: ac_simps comp_def)
qed

text \<open>Counter values that follow each other without wrapping, taken modulo the number of
  replicas, run through every index once in each window of that length.\<close>

lemma unat_counter_steps:
  fixes c :: "64 word"
  assumes "unat c + Suc j < 2 ^ 64 \<or> R dvd 2 ^ 64"
  shows "unat (c + 1 + of_nat j) mod R = (unat c + 1 + j) mod R"
proof -
  have "c + 1 + of_nat j = of_nat (unat c + 1 + j)" by simp
  then have u: "unat (c + 1 + of_nat j) = (unat c + 1 + j) mod 2 ^ 64"
    by (simp only: unat_of_nat) simp
  from assms show ?thesis
  proof
    assume "unat c + Suc j < 2 ^ 64"
    then show ?thesis using u by simp
  next
    assume "R dvd 2 ^ 64"
    then show ?thesis unfolding u by (rule mod_mod_cancel)
  qed
qed

lemma inj_on_shift_mod:
  fixes R :: nat
  shows "inj_on (\<lambda>j. (a + j) mod R) {s ..< s + R}"
proof (rule inj_onI)
  fix j k
  assume j: "j \<in> {s ..< s + R}" and k: "k \<in> {s ..< s + R}"
    and eq: "(a + j) mod R = (a + k) mod R"
  have aux: "x = y" if "x \<le> y" "y < x + R" "(a + x) mod R = (a + y) mod R" for x y
  proof -
    have "R dvd (a + y) - (a + x)"
      using that by (metis add_le_cancel_left mod_eq_dvd_iff_nat)
    then have "R dvd y - x" by simp
    moreover have "y - x < R" using that by linarith
    ultimately have "y - x = 0" using nat_dvd_not_less by blast
    then show ?thesis using that by simp
  qed
  show "j = k"
  proof (cases "j \<le> k")
    case True
    then show ?thesis using aux [of j k] j k eq by simp
  next
    case False
    then show ?thesis using aux [of k j] j k eq by simp
  qed
qed

lemma shift_mod_image:
  fixes R :: nat
  assumes "0 < R"
  shows "(\<lambda>j. (a + j) mod R) ` {s ..< s + R} = {0 ..< R}"
proof (rule card_subset_eq)
  show "finite {0 ..< R}" by simp
  show "(\<lambda>j. (a + j) mod R) ` {s ..< s + R} \<subseteq> {0 ..< R}" using assms by auto
  show "card ((\<lambda>j. (a + j) mod R) ` {s ..< s + R}) = card {0 ..< R}"
    by (simp add: card_image inj_on_shift_mod)
qed

lemma mset_shift_mod:
  fixes R :: nat
  assumes "0 < R"
  shows "mset (map (\<lambda>j. (a + j) mod R) [s ..< s + R]) = mset [0 ..< R]"
proof -
  have "mset (map (\<lambda>j. (a + j) mod R) [s ..< s + R])
          = image_mset (\<lambda>j. (a + j) mod R) (mset_set {s ..< s + R})"
    by (simp add: mset_upt)
  also have "\<dots> = mset_set ((\<lambda>j. (a + j) mod R) ` {s ..< s + R})"
    by (rule image_mset_mset_set) (rule inj_on_shift_mod)
  also have "\<dots> = mset [0 ..< R]"
    by (simp add: shift_mod_image [OF assms] mset_upt)
  finally show ?thesis .
qed

lemma mset_window:
  assumes "0 < length xs"
  shows "mset (map (\<lambda>j. xs ! ((a + j) mod length xs)) [s ..< s + length xs]) = mset xs"
proof -
  have "map (\<lambda>j. xs ! ((a + j) mod length xs)) [s ..< s + length xs]
          = map ((!) xs) (map (\<lambda>j. (a + j) mod length xs) [s ..< s + length xs])"
    by simp
  then have "mset (map (\<lambda>j. xs ! ((a + j) mod length xs)) [s ..< s + length xs])
          = image_mset ((!) xs) (mset (map (\<lambda>j. (a + j) mod length xs) [s ..< s + length xs]))"
    by (simp only: mset_map)
  also have "\<dots> = image_mset ((!) xs) (mset [0 ..< length xs])"
    by (simp only: mset_shift_mod [OF assms])
  also have "\<dots> = mset (map ((!) xs) [0 ..< length xs])" by (simp only: mset_map)
  also have "\<dots> = mset xs" by (simp only: map_nth)
  finally show ?thesis .
qed

section \<open>Construction from a handle list\<close>

text \<open>
  C7. Wrapping a handle list panics exactly when the list is empty. A one-element list
  gives a connection set whose primary is that element and whose replica list is empty;
  in general the first element is the primary and the others are the replicas, in order.
\<close>

theorem WrapDBs_construction:
  "((\<exists>p. WrapDBs dbs = Inl p) \<longleftrightarrow> dbs = [])
   \<and> WrapDBs [] = Inl (Panic ''at least one RW connection is required'')
   \<and> WrapDBs [x] = Inr \<lparr> readWriteDB = x, readOnlyDBs = [],
                          totalConnections = 1, readOnlyCount = 0 \<rparr>
   \<and> WrapDBs (x # xs) = Inr \<lparr> readWriteDB = x, readOnlyDBs = xs,
                               totalConnections = 1 + int (length xs), readOnlyCount = 0 \<rparr>"
  by (simp add: WrapDBs_def)

section \<open>Round-robin selection of replicas\<close>

text \<open>
  C1 (as amended). Let a connection set satisfy the size invariant of the constructors
  and have \<open>R \<ge> 1\<close> replicas. A call of \<open>ReadOnly()\<close> made when the counter holds \<open>c\<close>
  returns \<open>replicas[((c + 1) mod 2^64) mod R]\<close> and leaves the counter at \<open>c + 1\<close>
  (modulo \<open>2^64\<close>). If the counter does not wrap around \<open>2^64\<close> during \<open>k\<close> successive
  calls, or if \<open>R\<close> divides \<open>2^64\<close>, then call number \<open>j\<close> (from 0) returns
  \<open>replicas[(c + 1 + j) mod R]\<close>, a cyclic sequence of period \<open>R\<close>, and every window of
  \<open>R\<close> consecutive calls among them selects every replica exactly once: the handles
  returned in the window are the replica list up to order.
\<close>

theorem ReadOnly_round_robin:
  assumes inv: "conn_inv d"
    and R: "R = length (readOnlyDBs d)" "0 < R" "int R < 2 ^ 63"
    and nowrap: "unat (readOnlyCount d) + k < 2 ^ 64 \<or> R dvd 2 ^ 64"
  shows "ReadOnly d = Inr (readOnlyDBs d ! (unat (readOnlyCount d + 1) mod R),
                           d\<lparr> readOnlyCount := readOnlyCount d + 1 \<rparr>)
       \<and> (\<exists>cs. ReadOnly_calls k d = Inr (cs, d\<lparr> readOnlyCount := readOnlyCount d + of_nat k \<rparr>)
              \<and> cs = map (\<lambda>j. readOnlyDBs d ! ((unat (readOnlyCount d) + 1 + j) mod R)) [0 ..< k]
              \<and> (\<forall>s. s + R \<le> k \<longrightarrow> mset (take R (drop s cs)) = mset (readOnlyDBs d)))"
proof -
  let ?c = "readOnlyCount d"
  let ?f = "\<lambda>j. readOnlyDBs d ! ((unat ?c + 1 + j) mod R)"
  have pre: "0 < length (readOnlyDBs d)" "int (length (readOnlyDBs d)) < 2 ^ 63"
    using R by simp_all
  have one: "ReadOnly d = Inr (readOnlyDBs d ! (unat (?c + 1) mod R), d\<lparr> readOnlyCount := ?c + 1 \<rparr>)"
    using ReadOnly_replicas [OF inv pre] R(1) by simp
  have idx: "unat (?c + 1 + of_nat j) mod R = (unat ?c + 1 + j) mod R" if "j < k" for j
  proof (rule unat_counter_steps)
    from nowrap show "unat ?c + Suc j < 2 ^ 64 \<or> R dvd 2 ^ 64"
    proof
      assume "unat ?c + k < 2 ^ 64"
      moreover have "unat ?c + Suc j \<le> unat ?c + k" using that by simp
      ultimately show ?thesis by linarith
    next
      assume "R dvd 2 ^ 64"
      then show ?thesis ..
    qed
  qed
  have "map (\<lambda>j. readOnlyDBs d ! (unat (?c + 1 + of_nat j) mod R)) [0 ..< k] = map ?f [0 ..< k]"
    by (rule map_cong) (simp_all add: idx)
  then have calls: "ReadOnly_calls k d = Inr (map ?f [0 ..< k], d\<lparr> readOnlyCount := ?c + of_nat k \<rparr>)"
    using ReadOnly_calls_replicas [OF inv pre, of k] R(1) by simp
  have window: "mset (take R (drop s (map ?f [0 ..< k]))) = mset (readOnlyDBs d)" if "s + R \<le> k" for s
  proof -
    have "take R (drop s [0 ..< k]) = [s ..< s + R]"
      using that by (simp add: drop_upt take_upt)
    then have "take R (drop s (map ?f [0 ..< k])) = map ?f [s ..< s + R]"
      by (simp only: drop_map take_map)
    moreover have "mset (map ?f [s ..< s + R]) = mset (readOnlyDBs d)"
      using mset_window [of "readOnlyDBs d" "unat ?c + 1" s] R by simp
    ultimately show ?thesis by simp
  qed
  show ?thesis using one calls window by blast
qed

text \<open>One primary and three replicas, the counter at 7, four calls: the hypotheses hold,
  the calls return replicas 3, 1, 2, 3, and the window of the last three calls holds
  each replica once.\<close>

theorem ReadOnly_round_robin_witness:
  "conn_inv \<lparr> readWriteDB = Some 0, readOnlyDBs = [Some 1, Some 2, Some 3],
              totalConnections = 4, readOnlyCount = 7 \<rparr>
   \<and> unat (7 :: 64 word) + 4 < 2 ^ 64
   \<and> ReadOnly \<lparr> readWriteDB = Some 0, readOnlyDBs = [Some 1, Some 2, Some 3],
                totalConnections = 4, readOnlyCount = 7 \<rparr>
       = Inr (Some 3, \<lparr> readWriteDB = Some 0, readOnlyDBs = [Some 1, Some 2, Some 3],
                         totalConnections = 4, readOnlyCount = 8 \<rparr>)
   \<and> ReadOnly_calls 4 \<lparr> readWriteDB = Some 0, readOnlyDBs = [Some 1, Some 2, Some 3],
                         totalConnections = 4, readOnlyCount = 7 \<rparr>
       = Inr ([Some 3, Some 1, Some 2, Some 3],
              \<lparr> readWriteDB = Some 0, readOnlyDBs = [Some 1, Some 2, Some 3],
                totalConnections = 4, readOnlyCount = 11 \<rparr>)
   \<and> mset (take 3 (drop 1 [Some 3, Some 1, Some 2, Some (3::nat)])) = mset [Some 1, Some 2, Some 3]"
  using ReadOnly_round_robin [of "\<lparr> readWriteDB = Some 0, readOnlyDBs = [Some 1, Some 2, Some 3],
              totalConnections = 4, readOnlyCount = 7 \<rparr>" 3 4]
  by (simp add: conn_inv_def upt_conv_Cons)

text \<open>
  The claim as written fails where the 64-bit counter wraps. With three replicas and the
  counter at \<open>2^64 - 2\<close>, three consecutive calls use the counter values \<open>2^64 - 1\<close>, 0
  and 1, that is the indices 0, 0 and 1: the first replica is selected twice and the
  third not at all.
\<close>

theorem ReadOnly_window_counterexample:
  "ReadOnly_calls 3 \<lparr> readWriteDB = Some 0, readOnlyDBs = [Some 1, Some 2, Some 3],
                       totalConnections = 4, readOnlyCount = 18446744073709551614 \<rparr>
     = Inr ([Some 1, Some 1, Some 2],
            \<lparr> readWriteDB = Some 0, readOnlyDBs = [Some 1, Some 2, Some 3],
              totalConnections = 4, readOnlyCount = 1 \<rparr>)
   \<and> mset [Some 1, Some 1, Some (2::nat)] \<noteq> mset [Some 1, Some 2, Some 3]"
  by (simp add: numeral_3_eq_3 ReadOnly_def roundRobin_def index_def Let_def)

section \<open>Properties of the fan-out executor\<close>

text \<open>A scheduler only reorders, and every order is the order of some scheduler.\<close>

lemma mset_scheduled: "mset (scheduled picks pending) = mset pending"
proof (induction picks pending rule: scheduled.induct)
  case (1 picks)
  then show ?case by simp
next
  case (2 v va)
  then show ?case by simp
next
  case (3 c picks v va)
  let ?p = "v # va"
  let ?k = "c mod length ?p"
  have k: "?k < length ?p" by simp
  have "mset (take ?k ?p @ drop (Suc ?k) ?p) + {#?p ! ?k#} = mset (take ?k ?p @ ?p ! ?k # drop (Suc ?k) ?p)"
    by simp
  also have "\<dots> = mset ?p" using id_take_nth_drop [OF k] by simp
  finally have split: "mset (take ?k ?p @ drop (Suc ?k) ?p) + {#?p ! ?k#} = mset ?p" .
  have "mset (scheduled (c # picks) ?p)
          = add_mset (?p ! ?k) (mset (scheduled picks (take ?k ?p @ drop (Suc ?k) ?p)))"
    by (simp add: Let_def)
  also have "\<dots> = add_mset (?p ! ?k) (mset (take ?k ?p @ drop (Suc ?k) ?p))"
    using "3.IH" [of ?k] by simp
  also have "\<dots> = mset ?p" using split by simp
  finally show ?case .
qed

lemma set_scheduled: "set (scheduled picks pending) = set pending"
  by (metis mset_scheduled set_mset_mset)

lemma length_scheduled: "length (scheduled picks pending) = length pending"
  by (metis mset_scheduled size_mset)

lemma scheduled_any_order:
  "mset order = mset pending \<Longrightarrow> \<exists>picks. scheduled picks pending = order"
proof (induction order arbitrary: pending)
  case Nil
  then have "pending = []" by simp
  then show ?case by simp
next
  case (Cons x order)
  from Cons.prems have "x \<in> set pending" by (metis list.set_intros(1) set_mset_mset)
  then obtain k where k: "k < length pending" and x: "pending ! k = x"
    by (auto simp: in_set_conv_nth)
  let ?rest = "take k pending @ drop (Suc k) pending"
  have "mset pending = mset (take k pending @ pending ! k # drop (Suc k) pending)"
    using id_take_nth_drop [OF k] by simp
  then have "mset pending = add_mset x (mset ?rest)" using x by simp
  with Cons.prems have "mset order = mset ?rest" by simp
  from Cons.IH [OF this] obtain picks where picks: "scheduled picks ?rest = order" ..
  obtain p ps where pending: "pending = p # ps" using k by (cases pending) auto
  have "k mod length pending = k" using k by simp
  then have "scheduled (k # picks) pending = x # order"
    using picks x unfolding pending by (simp add: Let_def)
  then show ?case ..
qed

lemma receive_all: "length channel = k \<Longrightarrow> receive k channel err = Some (collect channel err)"
proof (induction k channel err rule: receive.induct)
  case (1 channel err)
  then show ?case by simp
next
  case (2 k err)
  then show ?case by simp
next
  case (3 k e channel err)
  then show ?case by simp
qed

lemma length_launched: "0 \<le> n \<Longrightarrow> length [0 .. n - 1] = nat n"
  by simp

lemma goroutines_length:
  "goroutines fn order w = Inr (es, w') \<Longrightarrow> length es = length order"
proof (induction order arbitrary: w es)
  case Nil
  then show ?case by simp
next
  case (Cons i order)
  then show ?case
    by (auto split: sum.splits prod.splits)
qed

lemma goroutines_total:
  assumes "\<forall>i \<in> set sched. \<forall>w. \<exists>r. fn i w = Inr r"
  shows "\<exists>es w'. goroutines fn sched w = Inr (es, w')"
  using assms
proof (induction sched arbitrary: w)
  case Nil
  then show ?case by simp
next
  case (Cons i sched)
  from Cons.prems obtain e w1 where step: "fn i w = Inr (e, w1)"
    by (metis list.set_intros(1) surj_pair)
  from Cons.prems have "\<forall>j \<in> set sched. \<forall>w. \<exists>r. fn j w = Inr r" by simp
  from Cons.IH [OF this] obtain es w2 where "goroutines fn sched w1 = Inr (es, w2)" by blast
  with step show ?case by simp
qed

lemma goroutines_traced:
  "goroutines (traced fn) sched (log, w) =
     (case goroutines fn sched w of
        Inl p \<Rightarrow> Inl p
      | Inr (es, w') \<Rightarrow> Inr (es, (log @ zip sched es, w')))"
proof (induction sched arbitrary: log w)
  case Nil
  then show ?case by simp
next
  case (Cons i sched)
  show ?case
  proof (cases "fn i w")
    case (Inl p)
    then show ?thesis by (simp add: traced_def)
  next
    case (Inr r)
    obtain e w1 where r: "r = (e, w1)" by (cases r)
    show ?thesis
      using Inr r Cons.IH [of "log @ [(i, e)]" w1]
      by (simp add: traced_def split: sum.splits prod.splits)
  qed
qed

lemma collect_last:
  "collect es err =
     (if filter (\<lambda>e. e \<noteq> None) es = [] then err else last (filter (\<lambda>e. e \<noteq> None) es))"
  by (induction es arbitrary: err) auto

lemma collect_None_iff:
  "collect es None = None \<longleftrightarrow> (\<forall>e \<in> set es. e = None)"
proof (cases "filter (\<lambda>e. e \<noteq> None) es = []")
  case True
  then have "\<forall>e \<in> set es. e = None" by (simp only: filter_empty_conv) blast
  moreover have "collect es None = None" unfolding collect_last using True by (rule if_P)
  ultimately show ?thesis by blast
next
  case False
  have mem: "last (filter (\<lambda>e. e \<noteq> None) es) \<in> set (filter (\<lambda>e. e \<noteq> None) es)"
    using False by (rule last_in_set)
  then have "last (filter (\<lambda>e. e \<noteq> None) es) \<noteq> None"
    and "last (filter (\<lambda>e. e \<noteq> None) es) \<in> set es"
    by auto
  moreover have "collect es None = last (filter (\<lambda>e. e \<noteq> None) es)"
    unfolding collect_last using False by (rule if_not_P)
  ultimately show ?thesis by metis
qed

lemma doConcurrent_run:
  assumes n: "0 \<le> n"
    and run: "goroutines fn (scheduled (run_picks sched) [0 .. n - 1]) w = Inr (results, w')"
  shows "doConcurrent n fn sched w = Inr (collect (scheduled (send_picks sched) results) None, w')"
proof -
  have "length results = length (scheduled (run_picks sched) [0 .. n - 1])"
    using run by (rule goroutines_length)
  then have "length (scheduled (send_picks sched) results) = nat n"
    using n by (simp add: length_scheduled)
  then have "receive (nat n) (scheduled (send_picks sched) results) None
               = Some (collect (scheduled (send_picks sched) results) None)"
    by (rule receive_all)
  then show ?thesis using n run by (simp add: doConcurrent_def)
qed

text \<open>
  C4. Let \<open>0 \<le> n\<close> and let no \<open>fn(i)\<close> panic. Then, whatever the scheduler does,
  \<open>doConcurrent(n, fn)\<close> returns, and the log of the instrumented operation shows what
  happened: \<open>fn\<close> was called once for each index \<open>0 .. n - 1\<close>, in the order the scheduler
  ran the goroutines and whatever the calls returned; the result is nil exactly when every
  call returned nil; otherwise it is the last non-nil error among the values in the order
  in which they reached the channel, which is the order in which the receiving loop sees
  them and need not be the order of the calls. Instrumenting changes neither the result
  nor the final state.
\<close>

theorem doConcurrent_runs_all:
  assumes n: "0 \<le> n"
    and total: "\<forall>i w. 0 \<le> i \<and> i < n \<longrightarrow> (\<exists>r. fn i w = Inr r)"
  shows "\<exists>err log w'.
           doConcurrent n (traced fn) sched ([], w) = Inr (err, (log, w'))
         \<and> doConcurrent n fn sched w = Inr (err, w')
         \<and> map fst log = scheduled (run_picks sched) [0 .. n - 1]
         \<and> mset (map fst log) = mset [0 .. n - 1]
         \<and> mset (scheduled (send_picks sched) (map snd log)) = mset (map snd log)
         \<and> (err = None \<longleftrightarrow> (\<forall>e \<in> set (map snd log). e = None))
         \<and> (err \<noteq> None \<longrightarrow>
               err = last (filter (\<lambda>e. e \<noteq> None) (scheduled (send_picks sched) (map snd log))))"
proof -
  let ?order = "scheduled (run_picks sched) [0 .. n - 1]"
  have "set ?order = {0 .. n - 1}" by (simp add: set_scheduled)
  then have "\<forall>i \<in> set ?order. \<forall>w. \<exists>r. fn i w = Inr r"
    using total by auto
  from goroutines_total [OF this, of w]
  obtain es w' where run: "goroutines fn ?order w = Inr (es, w')" by blast
  have len: "length es = length ?order" using run by (rule goroutines_length)
  let ?log = "zip ?order es"
  let ?received = "scheduled (send_picks sched) es"
  have fst_log: "map fst ?log = ?order" and snd_log: "map snd ?log = es"
    using len by simp_all
  have run_traced: "goroutines (traced fn) ?order ([], w) = Inr (es, (?log, w'))"
    using run by (simp add: goroutines_traced)
  have traced: "doConcurrent n (traced fn) sched ([], w) = Inr (collect ?received None, (?log, w'))"
    by (rule doConcurrent_run [OF n run_traced])
  have plain: "doConcurrent n fn sched w = Inr (collect ?received None, w')"
    by (rule doConcurrent_run [OF n run])
  have perm: "mset (map fst ?log) = mset [0 .. n - 1]"
    unfolding fst_log by (rule mset_scheduled)
  have sent: "mset (scheduled (send_picks sched) (map snd ?log)) = mset (map snd ?log)"
    by (rule mset_scheduled)
  have "collect ?received None = None \<longleftrightarrow> (\<forall>e \<in> set ?received. e = None)"
    by (rule collect_None_iff)
  then have nil: "collect ?received None = None \<longleftrightarrow> (\<forall>e \<in> set (map snd ?log). e = None)"
    unfolding snd_log set_scheduled .
  have last: "collect ?received None \<noteq> None \<longrightarrow>
                collect ?received None
                  = last (filter (\<lambda>e. e \<noteq> None) (scheduled (send_picks sched) (map snd ?log)))"
    unfolding snd_log by (metis collect_last)
  show ?thesis
    by (intro exI conjI)
      (fact traced, fact plain, fact fst_log, fact perm, fact sent, fact nil, fact last)
qed

text \<open>Three operations; the scheduler runs them in the order 2, 0, 1 and lets the result of
  operation 0 reach the channel before that of operation 2. The operations 0 and 2 fail.
  All three run, and the error returned is that of operation 2, the last failure
  received.\<close>

theorem doConcurrent_runs_all_witness:
  "(0::int) \<le> 3
   \<and> doConcurrent 3
        (traced (\<lambda>i w. Inr (if i = 1 then None
                        else if i = 0 then Some (Error ''zero'') else Some (Error ''two''), Suc w)))
        \<lparr> run_picks = [2, 0], send_picks = [1] \<rparr> ([], 0 :: nat)
     = Inr (Some (Error ''two''),
            ([(2, Some (Error ''two'')), (0, Some (Error ''zero'')), (1, None)], 3))"
proof -
  have run: "doConcurrent 3
        (traced (\<lambda>i w. Inr (if i = 1 then None
                        else if i = 0 then Some (Error ''zero'') else Some (Error ''two''), Suc w)))
        \<lparr> run_picks = [2, 0], send_picks = [1] \<rparr> ([], 0 :: nat)
     = Inr (Some (Error ''two''),
            ([(2, Some (Error ''two'')), (0, Some (Error ''zero'')), (1, None)], 3))"
    by code_simp
  show ?thesis
    using doConcurrent_runs_all [of 3
       "\<lambda>i w. Inr (if i = 1 then None
                        else if i = 0 then Some (Error ''zero'') else Some (Error ''two''), Suc w)"
       "\<lparr> run_picks = [2, 0], send_picks = [1] \<rparr>" "0::nat"] run
    by simp
qed


section \<open>Properties of \<open>Prepare\<close>\<close>

lemma connection_image:
  "connection d ` {0 .. int (length (readOnlyDBs d))} = set (readWriteDB d # readOnlyDBs d)"
proof (rule set_eqI, rule iffI)
  fix c
  assume "c \<in> connection d ` {0 .. int (length (readOnlyDBs d))}"
  then obtain i where i: "0 \<le> i" "i \<le> int (length (readOnlyDBs d))" and c: "c = connection d i"
    by auto
  show "c \<in> set (readWriteDB d # readOnlyDBs d)"
  proof (cases "i = 0")
    case True
    then show ?thesis using c by (simp add: connection_def)
  next
    case False
    then have "nat (i - 1) < length (readOnlyDBs d)" using i by linarith
    then show ?thesis using False c by (simp add: connection_def)
  qed
next
  fix c
  assume "c \<in> set (readWriteDB d # readOnlyDBs d)"
  then consider "c = readWriteDB d" | j where "j < length (readOnlyDBs d)" "c = readOnlyDBs d ! j"
    by (auto simp: in_set_conv_nth)
  then show "c \<in> connection d ` {0 .. int (length (readOnlyDBs d))}"
  proof cases
    case 1
    then have "c = connection d 0" by (simp add: connection_def)
    then show ?thesis by (rule image_eqI) simp
  next
    case 2
    then have "c = connection d (int j + 1)" by (simp add: connection_def)
    then show ?thesis by (rule image_eqI) (use 2 in simp)
  qed
qed

lemma prepare_goroutines:
  assumes "set sched \<subseteq> {0 .. int (length (readOnlyDBs d))}"
    and "length ro = length (readOnlyDBs d)"
  shows "goroutines (Prepare_closure sql_Prepare d query) sched (s, ro)
         = Inr (map (\<lambda>i. snd (sql_Prepare (connection d i) query)) sched,
                (if 0 \<in> set sched then s\<lparr> rwstmt := fst (sql_Prepare (readWriteDB d) query) \<rparr> else s,
                 map (\<lambda>j. if int j + 1 \<in> set sched
                           then fst (sql_Prepare (readOnlyDBs d ! j) query) else ro ! j)
                   [0 ..< length (readOnlyDBs d)]))"
  using assms
proof (induction sched arbitrary: s ro)
  case Nil
  have "map ((!) ro) [0 ..< length (readOnlyDBs d)] = ro"
    using Nil.prems(2) map_nth [of ro] by simp
  then show ?case by simp
next
  case (Cons i sched)
  let ?R = "length (readOnlyDBs d)"
  have rest: "set sched \<subseteq> {0 .. int ?R}" using Cons.prems(1) by simp
  have i: "0 \<le> i" "i \<le> int ?R" using Cons.prems(1) by simp_all
  show ?case
  proof (cases "i = 0")
    case True
    let ?s1 = "s\<lparr> rwstmt := fst (sql_Prepare (readWriteDB d) query) \<rparr>"
    show ?thesis
      using True Cons.IH [OF rest Cons.prems(2), of ?s1]
      by (simp add: Prepare_closure_def connection_def split_beta)
  next
    case False
    let ?j = "nat (i - 1)"
    have j: "?j < ?R" "0 \<le> i - 1" "i - 1 < int ?R" using False i by linarith+
    let ?ro1 = "ro[?j := fst (sql_Prepare (readOnlyDBs d ! ?j) query)]"
    have len1: "length ?ro1 = ?R" using Cons.prems(2) by simp
    have ij: "int k + 1 = i \<longleftrightarrow> k = ?j" for k using j by linarith
    show ?thesis
      using False j Cons.prems(2) Cons.IH [OF rest len1, of s]
      by (simp add: Prepare_closure_def connection_def split_beta index_def assign_def nth_list_update ij)
  qed
qed


lemma collect_mem:
  assumes "collect es None \<noteq> None"
  shows "collect es None \<in> set es"
proof (cases "filter (\<lambda>e. e \<noteq> None) es = []")
  case True
  then have "collect es None = None" unfolding collect_last by (rule if_P)
  with assms show ?thesis by simp
next
  case False
  then have "last (filter (\<lambda>e. e \<noteq> None) es) \<in> set (filter (\<lambda>e. e \<noteq> None) es)"
    by (rule last_in_set)
  then have "last (filter (\<lambda>e. e \<noteq> None) es) \<in> set es" by auto
  moreover have "collect es None = last (filter (\<lambda>e. e \<noteq> None) es)"
    unfolding collect_last using False by (rule if_not_P)
  ultimately show ?thesis by simp
qed

lemma launched_connections:
  assumes "conn_inv d"
  shows "set (scheduled picks [0 .. totalConnections d - 1]) = {0 .. int (length (readOnlyDBs d))}"
  using assms by (simp add: set_scheduled conn_inv_def)

lemma Prepare_result:
  assumes inv: "conn_inv d"
  shows "Prepare sql_Prepare this d query sched =
           (let err = collect (scheduled (send_picks sched)
                        (map (\<lambda>i. snd (sql_Prepare (connection d i) query))
                          (scheduled (run_picks sched) [0 .. totalConnections d - 1]))) None
            in if err \<noteq> None then Inr (None, err)
               else Inr (Some \<lparr> db = Some this,
                                 rwstmt = fst (sql_Prepare (readWriteDB d) query),
                                 rostmts = map (\<lambda>c. fst (sql_Prepare c query)) (readOnlyDBs d) \<rparr>,
                         None))"
proof -
  let ?R = "length (readOnlyDBs d)"
  let ?order = "scheduled (run_picks sched) [0 .. totalConnections d - 1]"
  have set: "set ?order = {0 .. int ?R}" by (rule launched_connections [OF inv])
  have n: "0 \<le> totalConnections d" using inv by (simp add: conn_inv_def)
  have zero: "0 \<in> set ?order" unfolding set by simp
  have all: "int j + 1 \<in> set ?order" if "j < ?R" for j unfolding set using that by simp
  have "map (\<lambda>j. if int j + 1 \<in> set ?order
                  then fst (sql_Prepare (readOnlyDBs d ! j) query) else replicate ?R None ! j) [0 ..< ?R]
          = map (\<lambda>j. fst (sql_Prepare (readOnlyDBs d ! j) query)) [0 ..< ?R]"
    by (rule map_cong) (simp_all add: all)
  also have "\<dots> = map (\<lambda>c. fst (sql_Prepare c query)) (map ((!) (readOnlyDBs d)) [0 ..< ?R])"
    by (simp add: comp_def)
  also have "\<dots> = map (\<lambda>c. fst (sql_Prepare c query)) (readOnlyDBs d)"
    by (simp only: map_nth)
  finally have slots: "map (\<lambda>j. if int j + 1 \<in> set ?order
                  then fst (sql_Prepare (readOnlyDBs d ! j) query) else replicate ?R None ! j) [0 ..< ?R]
          = map (\<lambda>c. fst (sql_Prepare c query)) (readOnlyDBs d)" .
  have sub: "set ?order \<subseteq> {0 .. int ?R}" using set by simp
  have len: "length (replicate ?R (None :: sqlStmt ptr)) = ?R" by simp
  have run: "goroutines (Prepare_closure sql_Prepare d query) ?order
               (\<lparr> db = Some this, rwstmt = None, rostmts = [] \<rparr>, replicate ?R None)
             = Inr (map (\<lambda>i. snd (sql_Prepare (connection d i) query)) ?order,
                    (\<lparr> db = Some this, rwstmt = fst (sql_Prepare (readWriteDB d) query), rostmts = [] \<rparr>,
                     map (\<lambda>c. fst (sql_Prepare c query)) (readOnlyDBs d)))"
    unfolding prepare_goroutines [OF sub len] slots using zero by simp
  show ?thesis
    unfolding Prepare_def Let_def doConcurrent_run [OF n run]
    by simp
qed

lemma PrepareContext_Prepare:
  "PrepareContext sql_PrepareContext this d ctx query sched =
     Prepare (\<lambda>c. sql_PrepareContext c ctx) this d query sched"
proof -
  have "PrepareContext_closure sql_PrepareContext d ctx query
          = Prepare_closure (\<lambda>c. sql_PrepareContext c ctx) d query"
    by (rule ext) (simp add: PrepareContext_closure_def Prepare_closure_def)
  then show ?thesis by (simp add: PrepareContext_def Prepare_def)
qed

text \<open>
  C6. For a connection set that satisfies the size invariant, and whatever the scheduler
  of the fan-out does, \<open>Prepare\<close> returns, and it returns an error exactly when the
  library's prepare fails on the primary or on some replica. In that case no statement is
  returned and the error is that of one of the failed prepares. Otherwise the statement
  returned points to the connection set, holds the primary's prepared handle and holds
  the replicas' prepared handles in the order of the replica list, one for each replica.
  \<open>PrepareContext\<close> is \<open>Prepare\<close> with the library's \<open>PrepareContext\<close> at the given
  context, so the same holds for it.
\<close>

theorem Prepare_all_or_nothing:
  fixes sql_Prepare :: "sqlDB ptr \<Rightarrow> string \<Rightarrow> sqlStmt ptr \<times> error option"
  assumes inv: "conn_inv d"
  shows "\<exists>s err. Prepare sql_Prepare this d query sched = Inr (s, err)
           \<and> (err \<noteq> None \<longleftrightarrow> (\<exists>c \<in> set (readWriteDB d # readOnlyDBs d). snd (sql_Prepare c query) \<noteq> None))
           \<and> (err \<noteq> None \<longrightarrow> s = None
                 \<and> (\<exists>c \<in> set (readWriteDB d # readOnlyDBs d). err = snd (sql_Prepare c query)))
           \<and> (err = None \<longrightarrow>
                 s = Some \<lparr> db = Some this,
                            rwstmt = fst (sql_Prepare (readWriteDB d) query),
                            rostmts = map (\<lambda>c. fst (sql_Prepare c query)) (readOnlyDBs d) \<rparr>)
           \<and> PrepareContext sql_PrepareContext this d ctx query sched
               = Prepare (\<lambda>c. sql_PrepareContext c ctx) this d query sched"
proof -
  let ?S = "set (readWriteDB d # readOnlyDBs d)"
  let ?order = "scheduled (run_picks sched) [0 .. totalConnections d - 1]"
  let ?es = "scheduled (send_picks sched) (map (\<lambda>i. snd (sql_Prepare (connection d i) query)) ?order)"
  let ?err = "collect ?es None"
  let ?st = "\<lparr> db = Some this, rwstmt = fst (sql_Prepare (readWriteDB d) query),
               rostmts = map (\<lambda>c. fst (sql_Prepare c query)) (readOnlyDBs d) \<rparr>"
  let ?s = "if ?err \<noteq> None then None else Some ?st"
  have conns: "connection d ` set ?order = ?S"
    unfolding launched_connections [OF inv] by (rule connection_image)
  have es: "set ?es = (\<lambda>c. snd (sql_Prepare c query)) ` ?S"
    unfolding conns [symmetric] set_scheduled [of "send_picks sched"] by (simp add: image_image)
  have res: "Prepare sql_Prepare this d query sched = Inr (?s, ?err)"
    unfolding Prepare_result [OF inv] Let_def by simp
  have none: "?err = None \<longleftrightarrow> (\<forall>e \<in> set ?es. e = None)" by (rule collect_None_iff)
  have iff: "?err \<noteq> None \<longleftrightarrow> (\<exists>c \<in> ?S. snd (sql_Prepare c query) \<noteq> None)"
  proof
    assume "?err \<noteq> None"
    with none have "\<not> (\<forall>e \<in> set ?es. e = None)" by (rule_tac notI) (erule notE, erule iffD2)
    then obtain e where e: "e \<in> set ?es" "e \<noteq> None" by meson
    from e(1) obtain c where "c \<in> ?S" "e = snd (sql_Prepare c query)"
      unfolding es by (rule imageE)
    with e(2) show "\<exists>c \<in> ?S. snd (sql_Prepare c query) \<noteq> None"
      by (intro bexI [of _ c]) simp_all
  next
    assume "\<exists>c \<in> ?S. snd (sql_Prepare c query) \<noteq> None"
    then obtain c where c: "c \<in> ?S" "snd (sql_Prepare c query) \<noteq> None" ..
    from c(1) have "snd (sql_Prepare c query) \<in> set ?es" unfolding es by (rule imageI)
    with c(2) have "\<not> (\<forall>e \<in> set ?es. e = None)" by meson
    then show "?err \<noteq> None" by (simp only: none not_False_eq_True)
  qed
  have fail: "?err \<noteq> None \<longrightarrow> ?s = None \<and> (\<exists>c \<in> ?S. ?err = snd (sql_Prepare c query))"
  proof
    assume ne: "?err \<noteq> None"
    then have "?err \<in> set ?es" by (rule collect_mem)
    then obtain c where "c \<in> ?S" "?err = snd (sql_Prepare c query)"
      unfolding es by (rule imageE)
    then have "\<exists>c \<in> ?S. ?err = snd (sql_Prepare c query)" by (intro bexI [of _ c])
    with ne show "?s = None \<and> (\<exists>c \<in> ?S. ?err = snd (sql_Prepare c query))"
      by simp
  qed
  have ok: "?err = None \<longrightarrow> ?s = Some ?st" by simp
  show ?thesis
    by (intro exI conjI) (fact res, fact iff, fact fail, fact ok, fact PrepareContext_Prepare)
qed

text \<open>One primary and two replicas, goroutines in the order 2, 0, 1: when every prepare
  succeeds the statement holds the three handles in order; when the prepare on the first
  replica fails, no statement is returned.\<close>

theorem Prepare_all_or_nothing_witness:
  "conn_inv \<lparr> readWriteDB = Some 10, readOnlyDBs = [Some 20, Some 30], totalConnections = 3, readOnlyCount = 0 \<rparr>
   \<and> Prepare (\<lambda>c q. (c, None)) 5
        \<lparr> readWriteDB = Some 10, readOnlyDBs = [Some 20, Some 30], totalConnections = 3, readOnlyCount = 0 \<rparr>
        ''SELECT 1'' \<lparr> run_picks = [2, 0], send_picks = [1] \<rparr>
      = Inr (Some \<lparr> db = Some 5, rwstmt = Some 10, rostmts = [Some 20, Some 30] \<rparr>, None)
   \<and> Prepare (\<lambda>c q. if c = Some 20 then (None, Some (Error ''down'')) else (c, None)) 5
        \<lparr> readWriteDB = Some 10, readOnlyDBs = [Some 20, Some 30], totalConnections = 3, readOnlyCount = 0 \<rparr>
        ''SELECT 1'' \<lparr> run_picks = [2, 0], send_picks = [1] \<rparr>
      = Inr (None, Some (Error ''down''))"
proof -
  have ok: "Prepare (\<lambda>c q. (c, None)) 5
        \<lparr> readWriteDB = Some 10, readOnlyDBs = [Some 20, Some 30], totalConnections = 3, readOnlyCount = 0 \<rparr>
        ''SELECT 1'' \<lparr> run_picks = [2, 0], send_picks = [1] \<rparr>
      = Inr (Some \<lparr> db = Some 5, rwstmt = Some 10, rostmts = [Some 20, Some 30] \<rparr>, None)"
    by code_simp
  have failed: "Prepare (\<lambda>c q. if c = Some 20 then (None, Some (Error ''down'')) else (c, None)) 5
        \<lparr> readWriteDB = Some 10, readOnlyDBs = [Some 20, Some 30], totalConnections = 3, readOnlyCount = 0 \<rparr>
        ''SELECT 1'' \<lparr> run_picks = [2, 0], send_picks = [1] \<rparr>
      = Inr (None, Some (Error ''down''))"
    by code_simp
  show ?thesis
    using Prepare_all_or_nothing [of
        "\<lparr> readWriteDB = Some 10, readOnlyDBs = [Some 20, Some 30], totalConnections = 3, readOnlyCount = 0 \<rparr>"
        "\<lambda>c q. (c, None)" 5 "''SELECT 1''" "\<lparr> run_picks = [2, 0], send_picks = [1] \<rparr>"]
      Prepare_all_or_nothing [of
        "\<lparr> readWriteDB = Some 10, readOnlyDBs = [Some 20, Some 30], totalConnections = 3, readOnlyCount = 0 \<rparr>"
        "\<lambda>c q. if c = Some 20 then (None, Some (Error ''down'')) else (c, None)" 5 "''SELECT 1''"
        "\<lparr> run_picks = [2, 0], send_picks = [1] \<rparr>"]
      ok failed
    by (simp add: conn_inv_def)
qed

section \<open>Properties of \<open>Open\<close>\<close>

lemma Split_nonempty: "Split s sep \<noteq> []"
  by (induction s) (auto split: list.splits)

lemma open_goroutines:
  assumes "set sched \<subseteq> {0 .. int R}"
    and "length (readOnlyDBs d) = R"
    and "length conns = Suc R"
  shows "goroutines (openConnections_closure sql_Open driverName conns) sched d
         = Inr (map (\<lambda>i. snd (sql_Open driverName (conns ! nat i))) sched,
                d\<lparr> readWriteDB := (if 0 \<in> set sched then fst (sql_Open driverName (conns ! 0))
                                    else readWriteDB d),
                   readOnlyDBs := map (\<lambda>j. if int j + 1 \<in> set sched
                                             then fst (sql_Open driverName (conns ! Suc j))
                                             else readOnlyDBs d ! j) [0 ..< R] \<rparr>)"
  using assms
proof (induction sched arbitrary: d)
  case Nil
  have "map ((!) (readOnlyDBs d)) [0 ..< R] = readOnlyDBs d"
    using Nil.prems(2) map_nth [of "readOnlyDBs d"] by simp
  then show ?case by simp
next
  case (Cons i sched)
  have rest: "set sched \<subseteq> {0 .. int R}" using Cons.prems(1) by simp
  have i: "0 \<le> i" "i \<le> int R" using Cons.prems(1) by simp_all
  have ic: "i < int (length conns)" using i Cons.prems(3) by simp
  show ?case
  proof (cases "i = 0")
    case True
    let ?d1 = "d\<lparr> readWriteDB := fst (sql_Open driverName (conns ! 0)) \<rparr>"
    have len1: "length (readOnlyDBs ?d1) = R" using Cons.prems(2) by simp
    show ?thesis
      using True ic Cons.IH [OF rest len1 Cons.prems(3)]
      by (simp add: openConnections_closure_def index_def split_beta)
  next
    case False
    let ?j = "nat (i - 1)"
    have j: "?j < R" "0 \<le> i - 1" "i - 1 < int R" "nat i = Suc ?j" using False i by linarith+
    let ?d1 = "d\<lparr> readOnlyDBs := (readOnlyDBs d)[?j := fst (sql_Open driverName (conns ! nat i))] \<rparr>"
    have len1: "length (readOnlyDBs ?d1) = R" using Cons.prems(2) by simp
    have ij: "int k + 1 = i \<longleftrightarrow> k = ?j" for k using j by linarith
    show ?thesis
      using False i ic j Cons.prems(2) Cons.IH [OF rest len1 Cons.prems(3)]
      by (simp add: openConnections_closure_def index_def assign_def split_beta nth_list_update ij)
  qed
qed


lemma Open_result:
  shows "Open sql_Open driverName dataSourceName sched =
           (let conns = Split dataSourceName (CHR '';'');
                err = collect (scheduled (send_picks sched)
                        (map (\<lambda>i. snd (sql_Open driverName (conns ! nat i)))
                          (scheduled (run_picks sched) [0 .. int (length conns) - 1]))) None
            in if err \<noteq> None then Inr (None, err)
               else Inr (Some \<lparr> readWriteDB = fst (sql_Open driverName (conns ! 0)),
                                 readOnlyDBs = map (\<lambda>dsn. fst (sql_Open driverName dsn)) (tl conns),
                                 totalConnections = int (length conns),
                                 readOnlyCount = 0 \<rparr>,
                         None))"
proof -
  let ?conns = "Split dataSourceName (CHR '';'')"
  have ne: "?conns \<noteq> []" by (rule Split_nonempty)
  then obtain R where len: "length ?conns = Suc R" by (cases ?conns) simp_all
  let ?d = "\<lparr> readWriteDB = None, readOnlyDBs = replicate R None,
              totalConnections = int (length ?conns), readOnlyCount = 0 \<rparr>"
  have lentl: "length (tl ?conns) = R" using len by simp
  have mk: "make_slice (int (length ?conns) - 1) = Inr (replicate R (None :: sqlDB ptr))"
  proof -
    have "int (length ?conns) - 1 = int R" using len by linarith
    then show ?thesis by (simp add: make_slice_def)
  qed
  let ?order = "scheduled (run_picks sched) [0 .. int (length ?conns) - 1]"
  have n: "0 \<le> int (length ?conns)" by simp
  have set: "set ?order = {0 .. int R}"
    unfolding set_scheduled len by simp
  have zero: "0 \<in> set ?order" unfolding set by simp
  have all: "int j + 1 \<in> set ?order" if "j < R" for j unfolding set using that by simp
  have "map (\<lambda>j. if int j + 1 \<in> set ?order then fst (sql_Open driverName (?conns ! Suc j))
                  else readOnlyDBs ?d ! j) [0 ..< R]
          = map (\<lambda>j. fst (sql_Open driverName (tl ?conns ! j))) [0 ..< R]"
  proof (intro map_cong refl)
    fix j assume "j \<in> set [0 ..< R]"
    then have j: "j < R" by simp
    then have "tl ?conns ! j = ?conns ! Suc j" using lentl by (simp add: nth_tl)
    then show "(if int j + 1 \<in> set ?order then fst (sql_Open driverName (?conns ! Suc j))
                  else readOnlyDBs ?d ! j) = fst (sql_Open driverName (tl ?conns ! j))"
      using all [OF j] by simp
  qed
  also have "\<dots> = map (\<lambda>dsn. fst (sql_Open driverName dsn)) (map ((!) (tl ?conns)) [0 ..< length (tl ?conns)])"
    unfolding lentl by (simp add: comp_def)
  also have "\<dots> = map (\<lambda>dsn. fst (sql_Open driverName dsn)) (tl ?conns)"
    by (simp only: map_nth)
  finally have slots: "map (\<lambda>j. if int j + 1 \<in> set ?order then fst (sql_Open driverName (?conns ! Suc j))
                  else readOnlyDBs ?d ! j) [0 ..< R]
          = map (\<lambda>dsn. fst (sql_Open driverName dsn)) (tl ?conns)" .
  have sub: "set ?order \<subseteq> {0 .. int R}" using set by simp
  have lenR: "length (readOnlyDBs ?d) = R" by simp
  have run: "goroutines (openConnections_closure sql_Open driverName ?conns) ?order ?d
             = Inr (map (\<lambda>i. snd (sql_Open driverName (?conns ! nat i))) ?order,
                    \<lparr> readWriteDB = fst (sql_Open driverName (?conns ! 0)),
                      readOnlyDBs = map (\<lambda>dsn. fst (sql_Open driverName dsn)) (tl ?conns),
                      totalConnections = int (length ?conns), readOnlyCount = 0 \<rparr>)"
    unfolding open_goroutines [OF sub lenR len] slots using zero by simp
  have oc: "openConnections sql_Open driverName ?conns sched ?d
             = Inr (collect (scheduled (send_picks sched)
                      (map (\<lambda>i. snd (sql_Open driverName (?conns ! nat i))) ?order)) None,
                    \<lparr> readWriteDB = fst (sql_Open driverName (?conns ! 0)),
                      readOnlyDBs = map (\<lambda>dsn. fst (sql_Open driverName dsn)) (tl ?conns),
                      totalConnections = int (length ?conns), readOnlyCount = 0 \<rparr>)"
    unfolding openConnections_def using doConcurrent_run [of "int (length ?conns)", OF n] run by simp
  show ?thesis
    unfolding Open_def Let_def mk using oc by simp
qed

section \<open>What the read operations change\<close>

lemma roundRobin_frame:
  "roundRobin n d = Inr (i, d') \<Longrightarrow> d' = d\<lparr> readOnlyCount := readOnlyCount d + 1 \<rparr>"
  by (auto simp: roundRobin_def Let_def split: if_splits)

lemma ReadOnly_frame:
  assumes "ReadOnly d = Inr (c, d')"
  shows "d' = d\<lparr> readOnlyCount := (if totalConnections d = 1 then readOnlyCount d
                                      else readOnlyCount d + 1) \<rparr>"
proof (cases "totalConnections d = 1")
  case True
  then show ?thesis using assms by (simp add: ReadOnly_def)
next
  case False
  then obtain i where "roundRobin (int (length (readOnlyDBs d))) d = Inr (i, d')"
    using assms by (auto simp: ReadOnly_def split: sum.splits)
  then show ?thesis using False roundRobin_frame by simp
qed

lemma ReadOnly_calls_frame:
  "ReadOnly_calls k d = Inr (cs, d') \<Longrightarrow>
     readWriteDB d' = readWriteDB d \<and> readOnlyDBs d' = readOnlyDBs d
     \<and> totalConnections d' = totalConnections d"
proof (induction k arbitrary: d cs)
  case 0
  then show ?case by simp
next
  case (Suc k)
  from Suc.prems obtain c d1 cs' where
    one: "ReadOnly d = Inr (c, d1)" and rest: "ReadOnly_calls k d1 = Inr (cs', d')"
    by (auto split: sum.splits)
  from ReadOnly_frame [OF one] have
    "readWriteDB d1 = readWriteDB d" "readOnlyDBs d1 = readOnlyDBs d"
    "totalConnections d1 = totalConnections d" by simp_all
  with Suc.IH [OF rest] show ?case by simp
qed

lemma through_frame:
  assumes "through p (roundRobin n) h = Inr (i, h')"
  shows "\<exists>a. p = Some a \<and> h' = h(a := (h a)\<lparr> readOnlyCount := readOnlyCount (h a) + 1 \<rparr>)"
proof (cases p)
  case None
  then show ?thesis using assms by (simp add: through_def)
next
  case (Some a)
  then obtain d' where rr: "roundRobin n (h a) = Inr (i, d')" and h': "h' = h(a := d')"
    using assms by (auto simp: through_def split: sum.splits)
  show ?thesis using Some h' roundRobin_frame [OF rr] by simp
qed

lemma ROStmt_frame:
  assumes "ROStmt s h = Inr (c, h')"
  shows "h' = h \<or> (\<exists>a. db s = Some a \<and> rostmts s \<noteq> []
                     \<and> h' = h(a := (h a)\<lparr> readOnlyCount := readOnlyCount (h a) + 1 \<rparr>))"
proof (cases "rostmts s = []")
  case True
  then show ?thesis using assms by (simp add: ROStmt_def)
next
  case False
  then obtain i where "through (db s) (roundRobin (int (length (rostmts s)))) h = Inr (i, h')"
    using assms by (auto simp: ROStmt_def split: sum.splits)
  from through_frame [OF this] False show ?thesis by blast
qed

section \<open>Results of the fan-out operations\<close>

lemma fanout_goroutines:
  assumes "set sched \<subseteq> {0 .. int (length xs)}"
  shows "goroutines (\<lambda>i w. if i = 0 then Inr (f x0, w)
                           else case index xs (i - 1) of
                                  Inl p \<Rightarrow> Inl p
                                | Inr c \<Rightarrow> Inr (f c, w)) sched w
         = Inr (map (\<lambda>i. f (if i = 0 then x0 else xs ! nat (i - 1))) sched, w)"
  using assms
proof (induction sched)
  case Nil
  then show ?case by simp
next
  case (Cons i sched)
  then show ?case by (simp add: index_def)
qed

lemma Close_result:
  assumes "conn_inv d"
  shows "Close sql_Close d sched
           = Inr (collect (scheduled (send_picks sched)
                    (map (\<lambda>i. sql_Close (connection d i))
                      (scheduled (run_picks sched) [0 .. totalConnections d - 1]))) None)"
proof -
  let ?order = "scheduled (run_picks sched) [0 .. totalConnections d - 1]"
  have sub: "set ?order \<subseteq> {0 .. int (length (readOnlyDBs d))}"
    using launched_connections [OF assms] by simp
  have n: "0 \<le> totalConnections d" using assms by (simp add: conn_inv_def)
  show ?thesis
    unfolding Close_def
      doConcurrent_run [OF n fanout_goroutines [OF sub, of sql_Close "readWriteDB d" "()"]]
    by (simp add: connection_def)
qed

lemma Ping_result:
  assumes "conn_inv d"
  shows "Ping sql_Ping d sched
           = Inr (collect (scheduled (send_picks sched)
                    (map (\<lambda>i. sql_Ping (connection d i))
                      (scheduled (run_picks sched) [0 .. totalConnections d - 1]))) None)"
proof -
  let ?order = "scheduled (run_picks sched) [0 .. totalConnections d - 1]"
  have sub: "set ?order \<subseteq> {0 .. int (length (readOnlyDBs d))}"
    using launched_connections [OF assms] by simp
  have n: "0 \<le> totalConnections d" using assms by (simp add: conn_inv_def)
  show ?thesis
    unfolding Ping_def
      doConcurrent_run [OF n fanout_goroutines [OF sub, of sql_Ping "readWriteDB d" "()"]]
    by (simp add: connection_def)
qed

lemma PingContext_result:
  assumes "conn_inv d"
  shows "PingContext sql_PingContext d ctx sched
           = Inr (collect (scheduled (send_picks sched)
                    (map (\<lambda>i. sql_PingContext (connection d i) ctx)
                      (scheduled (run_picks sched) [0 .. totalConnections d - 1]))) None)"
proof -
  let ?order = "scheduled (run_picks sched) [0 .. totalConnections d - 1]"
  have sub: "set ?order \<subseteq> {0 .. int (length (readOnlyDBs d))}"
    using launched_connections [OF assms] by simp
  have n: "0 \<le> totalConnections d" using assms by (simp add: conn_inv_def)
  show ?thesis
    unfolding PingContext_def
      doConcurrent_run [OF n fanout_goroutines
        [OF sub, of "\<lambda>c. sql_PingContext c ctx" "readWriteDB d" "()"]]
    by (simp add: connection_def)
qed

lemma stmt_Close_result:
  assumes "db s = Some a" "conn_inv (h a)" "length (rostmts s) = length (readOnlyDBs (h a))"
  shows "stmt_Close sql_Close s sched h
           = Inr (collect (scheduled (send_picks sched)
                    (map (\<lambda>i. sql_Close (if i = 0 then rwstmt s else rostmts s ! nat (i - 1)))
                      (scheduled (run_picks sched) [0 .. totalConnections (h a) - 1]))) None)"
proof -
  let ?order = "scheduled (run_picks sched) [0 .. totalConnections (h a) - 1]"
  have sub: "set ?order \<subseteq> {0 .. int (length (rostmts s))}"
    using launched_connections [OF assms(2)] assms(3) by simp
  have n: "0 \<le> totalConnections (h a)" using assms(2) by (simp add: conn_inv_def)
  show ?thesis
    unfolding stmt_Close_def
    using assms(1) doConcurrent_run [OF n fanout_goroutines [OF sub, of sql_Close "rwstmt s" "()"]]
    by simp
qed

section \<open>Read routing without replicas\<close>

text \<open>
  C2. For a connection set with no replicas (and the size invariant of the constructors)
  \<open>ReadOnly()\<close> returns the primary handle and leaves the set unchanged, so \<open>Query\<close>,
  \<open>QueryContext\<close>, \<open>QueryRow\<close> and \<open>QueryRowContext\<close> run on the primary. For a
  statement with no replica prepared handles \<open>ROStmt()\<close> returns the primary's prepared
  handle without touching the connection set, so the statement's four read methods run
  on that handle.
\<close>

theorem zero_replicas_read_primary:
  assumes "conn_inv d" "readOnlyDBs d = []" "rostmts s = []"
  shows "ReadOnly d = Inr (readWriteDB d, d)
       \<and> Query f1 query args d = Inr (f1 (readWriteDB d) query args, d)
       \<and> QueryContext f2 ctx query args d = Inr (f2 (readWriteDB d) ctx query args, d)
       \<and> QueryRow f3 query args d = Inr (f3 (readWriteDB d) query args, d)
       \<and> QueryRowContext f4 ctx query args d = Inr (f4 (readWriteDB d) ctx query args, d)
       \<and> ROStmt s h = Inr (rwstmt s, h)
       \<and> stmt_Query g1 s args h = Inr (g1 (rwstmt s) args, h)
       \<and> stmt_QueryContext g2 s ctx args h = Inr (g2 (rwstmt s) ctx args, h)
       \<and> stmt_QueryRow g3 s args h = Inr (g3 (rwstmt s) args, h)
       \<and> stmt_QueryRowContext g4 s ctx args h = Inr (g4 (rwstmt s) ctx args, h)"
proof -
  have "totalConnections d = 1" using assms(1,2) by (simp add: conn_inv_def)
  then have ro: "ReadOnly d = Inr (readWriteDB d, d)" by (simp add: ReadOnly_def)
  have st: "ROStmt s h = Inr (rwstmt s, h)" using assms(3) by (simp add: ROStmt_def)
  show ?thesis
    by (simp add: ro st Query_def QueryContext_def QueryRow_def QueryRowContext_def
          stmt_Query_def stmt_QueryContext_def stmt_QueryRow_def stmt_QueryRowContext_def)
qed

text \<open>The connection set wrapped around one handle, and a statement without replica
  handles.\<close>

theorem zero_replicas_read_primary_witness:
  "conn_inv \<lparr> readWriteDB = Some 10, readOnlyDBs = [], totalConnections = 1, readOnlyCount = 0 \<rparr>
   \<and> WrapDBs [Some 10]
        = Inr \<lparr> readWriteDB = Some 10, readOnlyDBs = [], totalConnections = 1, readOnlyCount = 0 \<rparr>
   \<and> Query (\<lambda>c query args. (c, query, args)) ''SELECT 1'' [True]
          \<lparr> readWriteDB = Some 10, readOnlyDBs = [], totalConnections = 1, readOnlyCount = 0 \<rparr>
        = Inr ((Some 10, ''SELECT 1'', [True]),
               \<lparr> readWriteDB = Some 10, readOnlyDBs = [], totalConnections = 1, readOnlyCount = 0 \<rparr>)
   \<and> stmt_Query (\<lambda>c args. (c, args)) \<lparr> db = Some 5, rwstmt = Some 11, rostmts = [] \<rparr> [True]
          (\<lambda>a. \<lparr> readWriteDB = Some 10, readOnlyDBs = [], totalConnections = 1, readOnlyCount = 0 \<rparr>)
        = Inr ((Some 11, [True]),
               (\<lambda>a. \<lparr> readWriteDB = Some 10, readOnlyDBs = [], totalConnections = 1, readOnlyCount = 0 \<rparr>))"
  using zero_replicas_read_primary [where
     d = "\<lparr> readWriteDB = Some 10, readOnlyDBs = [], totalConnections = 1, readOnlyCount = 0 \<rparr>"
     and s = "\<lparr> db = Some 5, rwstmt = Some 11, rostmts = [] \<rparr>"
     and h = "\<lambda>a. \<lparr> readWriteDB = Some 10, readOnlyDBs = [], totalConnections = 1, readOnlyCount = 0 \<rparr>"
     and ?f1.0 = "\<lambda>c query args. (c, query, args)" and query = "''SELECT 1''" and args = "[True]"
     and ?g1.0 = "\<lambda>c args. (c, args)"]
  by (simp add: conn_inv_def WrapDBs_def ReadOnly_def Query_def ROStmt_def stmt_Query_def)

section \<open>Write routing\<close>

lemma Open_success:
  assumes ok: "Open sql_Open driverName dataSourceName sched = Inr (Some d, err)"
  shows "d = \<lparr> readWriteDB = fst (sql_Open driverName (hd (Split dataSourceName (CHR '';'')))),
               readOnlyDBs = map (\<lambda>dsn. fst (sql_Open driverName dsn)) (tl (Split dataSourceName (CHR '';''))),
               totalConnections = int (length (Split dataSourceName (CHR '';''))),
               readOnlyCount = 0 \<rparr>"
proof -
  have "hd (Split dataSourceName (CHR '';'')) = Split dataSourceName (CHR '';'') ! 0"
    using Split_nonempty by (rule hd_conv_nth)
  then show ?thesis
    using ok unfolding Open_result Let_def
    by (simp split: if_splits)
qed

text \<open>
  C3. \<open>ReadWrite()\<close> returns the field \<open>readWriteDB\<close> and changes nothing. After
  \<open>WrapDBs\<close> that field is the first handle supplied; after a successful \<open>Open\<close> it is
  the handle the library opened for segment 0 of the connection string, whatever the
  scheduler of the fan-out did. The operations that change a connection set,
  \<open>ReadOnly()\<close> on the set and \<open>ROStmt()\<close> of a statement, leave the field as it is, so
  every call of \<open>ReadWrite()\<close> returns the same handle.
  \<open>Exec\<close>, \<open>ExecContext\<close>, \<open>Begin\<close> and \<open>BeginTx\<close> call the library on exactly the
  handle \<open>ReadWrite()\<close> returns.
\<close>

theorem ReadWrite_is_primary:
  "(WrapDBs (x # xs) = Inr d0 \<longrightarrow> ReadWrite d0 = x)
   \<and> (Open sql_Open driverName dataSourceName sched = Inr (Some d1, err)
      \<longrightarrow> ReadWrite d1 = fst (sql_Open driverName (hd (Split dataSourceName (CHR '';'')))))
   \<and> (ReadOnly_calls k d = Inr (cs, d') \<longrightarrow> ReadWrite d' = ReadWrite d)
   \<and> (ROStmt s h = Inr (c, h') \<longrightarrow> ReadWrite (h' a) = ReadWrite (h a))
   \<and> ReadWrite d = readWriteDB d
   \<and> Exec f1 d query args = f1 (ReadWrite d) query args
   \<and> ExecContext f2 d ctx query args = f2 (ReadWrite d) ctx query args
   \<and> Begin f3 d = f3 (ReadWrite d)
   \<and> BeginTx f4 d ctx opts = f4 (ReadWrite d) ctx opts"
proof -
  have wrap: "WrapDBs (x # xs) = Inr d0 \<longrightarrow> ReadWrite d0 = x"
    by (auto simp: WrapDBs_def ReadWrite_def)
  have opened: "Open sql_Open driverName dataSourceName sched = Inr (Some d1, err)
      \<longrightarrow> ReadWrite d1 = fst (sql_Open driverName (hd (Split dataSourceName (CHR '';''))))"
  proof
    assume a: "Open sql_Open driverName dataSourceName sched = Inr (Some d1, err)"
    show "ReadWrite d1 = fst (sql_Open driverName (hd (Split dataSourceName (CHR '';''))))"
      unfolding ReadWrite_def by (subst Open_success [OF a]) simp_all
  qed
  have calls: "ReadOnly_calls k d = Inr (cs, d') \<longrightarrow> ReadWrite d' = ReadWrite d"
    using ReadOnly_calls_frame [of k d cs d'] by (simp add: ReadWrite_def)
  have st: "ROStmt s h = Inr (c, h') \<longrightarrow> ReadWrite (h' a) = ReadWrite (h a)"
  proof
    assume "ROStmt s h = Inr (c, h')"
    from ROStmt_frame [OF this] show "ReadWrite (h' a) = ReadWrite (h a)"
      by (auto simp: ReadWrite_def)
  qed
  show ?thesis
    using wrap opened calls st
    by (simp add: ReadWrite_def Exec_def ExecContext_def Begin_def BeginTx_def)
qed

text \<open>A set wrapped around two handles, a set opened from a string of two segments, two
  reads on the set and one read through a statement.\<close>

theorem ReadWrite_is_primary_witness:
  "WrapDBs [Some 10, Some 20] = Inr \<lparr> readWriteDB = Some 10, readOnlyDBs = [Some 20], totalConnections = 2, readOnlyCount = 0 \<rparr>
   \<and> ReadWrite \<lparr> readWriteDB = Some 10, readOnlyDBs = [Some 20], totalConnections = 2, readOnlyCount = 0 \<rparr> = Some 10
   \<and> Open (\<lambda>drv dsn. (Some (length dsn), None)) ''pg'' ''a;bb'' \<lparr> run_picks = [1], send_picks = [] \<rparr>
       = Inr (Some \<lparr> readWriteDB = Some 1, readOnlyDBs = [Some 2], totalConnections = 2, readOnlyCount = 0 \<rparr>, None)
   \<and> ReadWrite \<lparr> readWriteDB = Some 1, readOnlyDBs = [Some 2], totalConnections = 2, readOnlyCount = 0 \<rparr>
       = fst (Some (length (hd (Split ''a;bb'' (CHR '';'')))), None :: error option)
   \<and> ReadOnly_calls 2 \<lparr> readWriteDB = Some 10, readOnlyDBs = [Some 20], totalConnections = 2, readOnlyCount = 0 \<rparr>
       = Inr ([Some 20, Some 20],
              \<lparr> readWriteDB = Some 10, readOnlyDBs = [Some 20], totalConnections = 2, readOnlyCount = 2 \<rparr>)
   \<and> ReadWrite \<lparr> readWriteDB = Some 10, readOnlyDBs = [Some 20], totalConnections = 2, readOnlyCount = 2 \<rparr>
       = ReadWrite \<lparr> readWriteDB = Some 10, readOnlyDBs = [Some 20], totalConnections = 2, readOnlyCount = 0 \<rparr>
   \<and> ROStmt \<lparr> db = Some 5, rwstmt = Some 11, rostmts = [Some 21] \<rparr> (\<lambda>a. \<lparr> readWriteDB = Some 10, readOnlyDBs = [Some 20], totalConnections = 2, readOnlyCount = 0 \<rparr>)
       = Inr (Some 21, (\<lambda>a. \<lparr> readWriteDB = Some 10, readOnlyDBs = [Some 20], totalConnections = 2, readOnlyCount = 0 \<rparr>)
               (5 := \<lparr> readWriteDB = Some 10, readOnlyDBs = [Some 20], totalConnections = 2, readOnlyCount = 1 \<rparr>))
   \<and> ReadWrite (((\<lambda>a. \<lparr> readWriteDB = Some 10, readOnlyDBs = [Some 20], totalConnections = 2, readOnlyCount = 0 \<rparr>)
               (5 := \<lparr> readWriteDB = Some 10, readOnlyDBs = [Some 20], totalConnections = 2, readOnlyCount = 1 \<rparr>)) 5)
       = ReadWrite ((\<lambda>a. \<lparr> readWriteDB = Some 10, readOnlyDBs = [Some 20], totalConnections = 2, readOnlyCount = 0 \<rparr>) 5)
   \<and> Exec (\<lambda>c query args. (c, query, args)) \<lparr> readWriteDB = Some 10, readOnlyDBs = [Some 20], totalConnections = 2, readOnlyCount = 0 \<rparr> ''UPDATE t'' [True] = (Some 10, ''UPDATE t'', [True])"
  using ReadWrite_is_primary [where x = "Some 10" and xs = "[Some 20]" and ?d0.0 = "\<lparr> readWriteDB = Some 10, readOnlyDBs = [Some 20], totalConnections = 2, readOnlyCount = 0 \<rparr>"
      and dataSourceName = "''a;bb''" and sched = "\<lparr> run_picks = [1], send_picks = [] \<rparr>"
      and sql_Open = "\<lambda>drv dsn. (Some (length dsn), None)" and driverName = "''pg''"
      and ?d1.0 = "\<lparr> readWriteDB = Some 1, readOnlyDBs = [Some 2], totalConnections = 2, readOnlyCount = 0 \<rparr>"
      and err = None and k = 2 and d = "\<lparr> readWriteDB = Some 10, readOnlyDBs = [Some 20], totalConnections = 2, readOnlyCount = 0 \<rparr>" and cs = "[Some 20, Some 20]"
      and d' = "\<lparr> readWriteDB = Some 10, readOnlyDBs = [Some 20], totalConnections = 2, readOnlyCount = 2 \<rparr>"
      and s = "\<lparr> db = Some 5, rwstmt = Some 11, rostmts = [Some 21] \<rparr>" and h = "\<lambda>a. \<lparr> readWriteDB = Some 10, readOnlyDBs = [Some 20], totalConnections = 2, readOnlyCount = 0 \<rparr>" and c = "Some 21"
      and h' = "(\<lambda>a. \<lparr> readWriteDB = Some 10, readOnlyDBs = [Some 20], totalConnections = 2, readOnlyCount = 0 \<rparr>)(5 := \<lparr> readWriteDB = Some 10, readOnlyDBs = [Some 20], totalConnections = 2, readOnlyCount = 1 \<rparr>)"
      and a = 5 and ?f1.0 = "\<lambda>c query args. (c, query, args)" and query = "''UPDATE t''" and args = "[True]"]
  by (simp add: WrapDBs_def ReadWrite_def upto.simps Open_def make_slice_def
        openConnections_def openConnections_closure_def doConcurrent_def index_def assign_def
        numeral_2_eq_2 ReadOnly_def roundRobin_def ROStmt_def through_def Exec_def Let_def)

section \<open>The size invariant and the bounds of the fan-out loops\<close>

lemma Prepare_success:
  assumes inv: "conn_inv d"
    and ok: "Prepare sql_Prepare this d query sched = Inr (Some s, err)"
  shows "s = \<lparr> db = Some this, rwstmt = fst (sql_Prepare (readWriteDB d) query),
               rostmts = map (\<lambda>c. fst (sql_Prepare c query)) (readOnlyDBs d) \<rparr>"
  using ok unfolding Prepare_result [OF inv] Let_def
  by (simp split: if_splits)

lemma Prepare_returns:
  assumes inv: "conn_inv d"
  shows "\<exists>r. Prepare sql_Prepare this d query sched = Inr r"
  unfolding Prepare_result [OF inv] Let_def by simp

lemma Open_returns:
  "\<exists>r. Open sql_Open driverName dataSourceName sched = Inr r"
  unfolding Open_result Let_def by simp

lemma ROStmt_preserves_inv:
  assumes "ROStmt s h = Inr (c, h')" "conn_inv (h a)"
  shows "conn_inv (h' a)"
  using ROStmt_frame [OF assms(1)] assms(2) by (auto simp: conn_inv_def)

text \<open>
  C10. Both constructors establish \<open>totalConnections = 1 + len(readOnlyDBs)\<close>:
  \<open>WrapDBs\<close> whenever it returns, and \<open>Open\<close> whenever it returns a connection set,
  the connection string always splitting into at least one segment; \<open>Open\<close> itself
  never indexes out of bounds. The read operations, on the set and through a statement,
  preserve the invariant. Under it every index \<open>i\<close> with \<open>0 < i < totalConnections\<close>
  reads \<open>readOnlyDBs[i-1]\<close> in bounds, and whatever the scheduler does \<open>Close\<close>, \<open>Ping\<close>,
  \<open>PingContext\<close>, \<open>Prepare\<close> and \<open>PrepareContext\<close> return without a panic. A statement
  that \<open>Prepare\<close> returned has as many replica handles as the set has replicas, and its
  \<open>Close\<close> returns without a panic, whatever the counter of the connection set has become
  meanwhile.
\<close>

theorem size_invariant_in_bounds:
  "(WrapDBs dbs = Inr d0 \<longrightarrow> conn_inv d0)
   \<and> 1 \<le> length (Split dataSourceName (CHR '';''))
   \<and> (\<exists>r. Open sql_Open driverName dataSourceName sched0 = Inr r)
   \<and> (Open sql_Open driverName dataSourceName sched0 = Inr (Some d1, err) \<longrightarrow> conn_inv d1)
   \<and> (conn_inv d \<and> ReadOnly_calls k d = Inr (cs, d') \<longrightarrow> conn_inv d')
   \<and> (conn_inv (h0 a) \<and> ROStmt s0 h0 = Inr (c0, h1) \<longrightarrow> conn_inv (h1 a))
   \<and> (conn_inv d \<and> 0 < i \<and> i < totalConnections d \<longrightarrow>
        index (readOnlyDBs d) (i - 1) = Inr (readOnlyDBs d ! nat (i - 1)))
   \<and> (conn_inv d \<longrightarrow>
        (\<exists>e. Close f1 d sched = Inr e)
        \<and> (\<exists>e. Ping f2 d sched = Inr e)
        \<and> (\<exists>e. PingContext f3 d ctx sched = Inr e)
        \<and> (\<exists>r. Prepare f4 this d query sched = Inr r)
        \<and> (\<exists>r. PrepareContext f5 this d ctx query sched = Inr r)
        \<and> (Prepare f4 this d query sched = Inr (Some s, e0)
             \<and> h this = d\<lparr> readOnlyCount := c \<rparr> \<longrightarrow>
             length (rostmts s) = length (readOnlyDBs d)
             \<and> (\<exists>e. stmt_Close f6 s sched' h = Inr e)))"
proof -
  have wrap: "WrapDBs dbs = Inr d0 \<longrightarrow> conn_inv d0"
    by (cases dbs) (auto simp: WrapDBs_def conn_inv_def)
  have seg: "1 \<le> length (Split dataSourceName (CHR '';''))"
    using Split_nonempty [of dataSourceName "CHR '';''"]
    by (cases "Split dataSourceName (CHR '';'')") simp_all
  have returns: "\<exists>r. Open sql_Open driverName dataSourceName sched0 = Inr r"
    by (rule Open_returns)
  have opened: "Open sql_Open driverName dataSourceName sched0 = Inr (Some d1, err) \<longrightarrow> conn_inv d1"
  proof
    assume "Open sql_Open driverName dataSourceName sched0 = Inr (Some d1, err)"
    from Open_success [OF this] have
      "totalConnections d1 = int (length (Split dataSourceName (CHR '';'')))"
      "length (readOnlyDBs d1) = length (tl (Split dataSourceName (CHR '';'')))"
      by simp_all
    then show "conn_inv d1" using seg by (simp add: conn_inv_def)
  qed
  have calls: "conn_inv d \<and> ReadOnly_calls k d = Inr (cs, d') \<longrightarrow> conn_inv d'"
    using ReadOnly_calls_frame [of k d cs d'] by (simp add: conn_inv_def)
  have stmt_reads: "conn_inv (h0 a) \<and> ROStmt s0 h0 = Inr (c0, h1) \<longrightarrow> conn_inv (h1 a)"
    using ROStmt_preserves_inv [of s0 h0 c0 h1 a] by blast
  have bounds: "conn_inv d \<and> 0 < i \<and> i < totalConnections d \<longrightarrow>
        index (readOnlyDBs d) (i - 1) = Inr (readOnlyDBs d ! nat (i - 1))"
    by (simp add: conn_inv_def index_def)
  have fan: "conn_inv d \<longrightarrow>
        (\<exists>e. Close f1 d sched = Inr e)
        \<and> (\<exists>e. Ping f2 d sched = Inr e)
        \<and> (\<exists>e. PingContext f3 d ctx sched = Inr e)
        \<and> (\<exists>r. Prepare f4 this d query sched = Inr r)
        \<and> (\<exists>r. PrepareContext f5 this d ctx query sched = Inr r)
        \<and> (Prepare f4 this d query sched = Inr (Some s, e0)
             \<and> h this = d\<lparr> readOnlyCount := c \<rparr> \<longrightarrow>
             length (rostmts s) = length (readOnlyDBs d)
             \<and> (\<exists>e. stmt_Close f6 s sched' h = Inr e))"
  proof
    assume inv: "conn_inv d"
    have st: "length (rostmts s) = length (readOnlyDBs d) \<and> (\<exists>e. stmt_Close f6 s sched' h = Inr e)"
      if p: "Prepare f4 this d query sched = Inr (Some s, e0)"
        and h: "h this = d\<lparr> readOnlyCount := c \<rparr>"
    proof -
      from Prepare_success [OF inv p]
      have dbs: "db s = Some this" and len: "length (rostmts s) = length (readOnlyDBs d)"
        by simp_all
      have inv': "conn_inv (h this)" using inv h by (simp add: conn_inv_def)
      have len': "length (rostmts s) = length (readOnlyDBs (h this))" using len h by simp
      show ?thesis
        using len stmt_Close_result [of s this h f6 sched', OF dbs inv' len'] by simp
    qed
    show "(\<exists>e. Close f1 d sched = Inr e)
        \<and> (\<exists>e. Ping f2 d sched = Inr e)
        \<and> (\<exists>e. PingContext f3 d ctx sched = Inr e)
        \<and> (\<exists>r. Prepare f4 this d query sched = Inr r)
        \<and> (\<exists>r. PrepareContext f5 this d ctx query sched = Inr r)
        \<and> (Prepare f4 this d query sched = Inr (Some s, e0)
             \<and> h this = d\<lparr> readOnlyCount := c \<rparr> \<longrightarrow>
             length (rostmts s) = length (readOnlyDBs d)
             \<and> (\<exists>e. stmt_Close f6 s sched' h = Inr e))"
      using st Prepare_returns [OF inv]
      by (simp add: Close_result [OF inv] Ping_result [OF inv]
            PingContext_result [OF inv] PrepareContext_Prepare)
  qed
  show ?thesis
    by (intro conjI)
      (fact wrap, fact seg, fact returns, fact opened, fact calls, fact stmt_reads,
        fact bounds, fact fan)
qed

text \<open>A set of one primary and two replicas, a set opened from two segments, and a
  statement prepared on the first, read once and closed after seven reads.\<close>

theorem size_invariant_in_bounds_witness:
  "WrapDBs [Some 10, Some 20, Some 30] = Inr \<lparr> readWriteDB = Some 10, readOnlyDBs = [Some 20, Some 30], totalConnections = 3, readOnlyCount = 0 \<rparr>
   \<and> conn_inv \<lparr> readWriteDB = Some 10, readOnlyDBs = [Some 20, Some 30], totalConnections = 3, readOnlyCount = 0 \<rparr>
   \<and> Open (\<lambda>drv dsn. (Some (length dsn), None)) ''pg'' ''a;bb'' \<lparr> run_picks = [1], send_picks = [] \<rparr> = Inr (Some \<lparr> readWriteDB = Some 1, readOnlyDBs = [Some 2], totalConnections = 2, readOnlyCount = 0 \<rparr>, None)
   \<and> conn_inv \<lparr> readWriteDB = Some 1, readOnlyDBs = [Some 2], totalConnections = 2, readOnlyCount = 0 \<rparr>
   \<and> ReadOnly_calls 2 \<lparr> readWriteDB = Some 10, readOnlyDBs = [Some 20, Some 30], totalConnections = 3, readOnlyCount = 0 \<rparr> = Inr ([Some 30, Some 20], \<lparr> readWriteDB = Some 10, readOnlyDBs = [Some 20, Some 30], totalConnections = 3, readOnlyCount = 2 \<rparr>)
   \<and> conn_inv \<lparr> readWriteDB = Some 10, readOnlyDBs = [Some 20, Some 30], totalConnections = 3, readOnlyCount = 2 \<rparr>
   \<and> ROStmt \<lparr> db = Some 5, rwstmt = Some 10, rostmts = [Some 20, Some 30] \<rparr> (\<lambda>a. \<lparr> readWriteDB = Some 10, readOnlyDBs = [Some 20, Some 30], totalConnections = 3, readOnlyCount = 0 \<rparr>) = Inr (Some 30, (\<lambda>a. \<lparr> readWriteDB = Some 10, readOnlyDBs = [Some 20, Some 30], totalConnections = 3, readOnlyCount = 0 \<rparr>)(5 := \<lparr> readWriteDB = Some 10, readOnlyDBs = [Some 20, Some 30], totalConnections = 3, readOnlyCount = 1 \<rparr>))
   \<and> conn_inv (((\<lambda>a. \<lparr> readWriteDB = Some 10, readOnlyDBs = [Some 20, Some 30], totalConnections = 3, readOnlyCount = 0 \<rparr>)(5 := \<lparr> readWriteDB = Some 10, readOnlyDBs = [Some 20, Some 30], totalConnections = 3, readOnlyCount = 1 \<rparr>)) 5)
   \<and> (0::int) < 2 \<and> 2 < totalConnections \<lparr> readWriteDB = Some 10, readOnlyDBs = [Some 20, Some 30], totalConnections = 3, readOnlyCount = 0 \<rparr>
   \<and> index (readOnlyDBs \<lparr> readWriteDB = Some 10, readOnlyDBs = [Some 20, Some 30], totalConnections = 3, readOnlyCount = 0 \<rparr>) (2 - 1) = Inr (Some 30)
   \<and> Close (\<lambda>c. None) \<lparr> readWriteDB = Some 10, readOnlyDBs = [Some 20, Some 30], totalConnections = 3, readOnlyCount = 0 \<rparr> \<lparr> run_picks = [2, 0], send_picks = [1] \<rparr> = Inr None
   \<and> Ping (\<lambda>c. if c = Some 30 then Some (Error ''down'') else None) \<lparr> readWriteDB = Some 10, readOnlyDBs = [Some 20, Some 30], totalConnections = 3, readOnlyCount = 0 \<rparr> \<lparr> run_picks = [2, 0], send_picks = [1] \<rparr>
       = Inr (Some (Error ''down''))
   \<and> Prepare (\<lambda>c q. (c, None)) 5 \<lparr> readWriteDB = Some 10, readOnlyDBs = [Some 20, Some 30], totalConnections = 3, readOnlyCount = 0 \<rparr> ''SELECT 1'' \<lparr> run_picks = [2, 0], send_picks = [1] \<rparr> = Inr (Some \<lparr> db = Some 5, rwstmt = Some 10, rostmts = [Some 20, Some 30] \<rparr>, None)
   \<and> length (rostmts \<lparr> db = Some 5, rwstmt = Some 10, rostmts = [Some 20, Some 30] \<rparr>) = length (readOnlyDBs \<lparr> readWriteDB = Some 10, readOnlyDBs = [Some 20, Some 30], totalConnections = 3, readOnlyCount = 0 \<rparr>)
   \<and> stmt_Close (\<lambda>c. if c = Some 20 then Some (Error ''busy'') else None) \<lparr> db = Some 5, rwstmt = Some 10, rostmts = [Some 20, Some 30] \<rparr> \<lparr> run_picks = [1, 1], send_picks = [2] \<rparr> (\<lambda>a. \<lparr> readWriteDB = Some 10, readOnlyDBs = [Some 20, Some 30], totalConnections = 3, readOnlyCount = 7 \<rparr>)
       = Inr (Some (Error ''busy''))"
proof -
  have opened: "Open (\<lambda>drv dsn. (Some (length dsn), None)) ''pg'' ''a;bb'' \<lparr> run_picks = [1], send_picks = [] \<rparr> = Inr (Some \<lparr> readWriteDB = Some 1, readOnlyDBs = [Some 2], totalConnections = 2, readOnlyCount = 0 \<rparr>, None)"
    by code_simp
  have calls: "ReadOnly_calls 2 \<lparr> readWriteDB = Some 10, readOnlyDBs = [Some 20, Some 30], totalConnections = 3, readOnlyCount = 0 \<rparr> = Inr ([Some 30, Some 20], \<lparr> readWriteDB = Some 10, readOnlyDBs = [Some 20, Some 30], totalConnections = 3, readOnlyCount = 2 \<rparr>)"
    by code_simp
  have closed: "Close (\<lambda>c. None) \<lparr> readWriteDB = Some 10, readOnlyDBs = [Some 20, Some 30], totalConnections = 3, readOnlyCount = 0 \<rparr> \<lparr> run_picks = [2, 0], send_picks = [1] \<rparr> = Inr None"
    by code_simp
  have pinged: "Ping (\<lambda>c. if c = Some 30 then Some (Error ''down'') else None) \<lparr> readWriteDB = Some 10, readOnlyDBs = [Some 20, Some 30], totalConnections = 3, readOnlyCount = 0 \<rparr> \<lparr> run_picks = [2, 0], send_picks = [1] \<rparr>
       = Inr (Some (Error ''down''))"
    by code_simp
  have prepared: "Prepare (\<lambda>c q. (c, None)) 5 \<lparr> readWriteDB = Some 10, readOnlyDBs = [Some 20, Some 30], totalConnections = 3, readOnlyCount = 0 \<rparr> ''SELECT 1'' \<lparr> run_picks = [2, 0], send_picks = [1] \<rparr> = Inr (Some \<lparr> db = Some 5, rwstmt = Some 10, rostmts = [Some 20, Some 30] \<rparr>, None)"
    by code_simp
  have stmt_closed: "stmt_Close (\<lambda>c. if c = Some 20 then Some (Error ''busy'') else None) \<lparr> db = Some 5, rwstmt = Some 10, rostmts = [Some 20, Some 30] \<rparr> \<lparr> run_picks = [1, 1], send_picks = [2] \<rparr> (\<lambda>a. \<lparr> readWriteDB = Some 10, readOnlyDBs = [Some 20, Some 30], totalConnections = 3, readOnlyCount = 7 \<rparr>)
       = Inr (Some (Error ''busy''))"
    by code_simp
  show ?thesis
    using size_invariant_in_bounds [where dbs = "[Some 10, Some 20, Some 30]" and ?d0.0 = "\<lparr> readWriteDB = Some 10, readOnlyDBs = [Some 20, Some 30], totalConnections = 3, readOnlyCount = 0 \<rparr>"
      and dataSourceName = "''a;bb''" and ?sched0.0 = "\<lparr> run_picks = [1], send_picks = [] \<rparr>"
      and sql_Open = "\<lambda>drv dsn. (Some (length dsn), None)" and driverName = "''pg''"
      and ?d1.0 = "\<lparr> readWriteDB = Some 1, readOnlyDBs = [Some 2], totalConnections = 2, readOnlyCount = 0 \<rparr>" and err = None
      and d = "\<lparr> readWriteDB = Some 10, readOnlyDBs = [Some 20, Some 30], totalConnections = 3, readOnlyCount = 0 \<rparr>" and k = 2 and cs = "[Some 30, Some 20]" and d' = "\<lparr> readWriteDB = Some 10, readOnlyDBs = [Some 20, Some 30], totalConnections = 3, readOnlyCount = 2 \<rparr>" and i = 2
      and ?h0.0 = "\<lambda>a. \<lparr> readWriteDB = Some 10, readOnlyDBs = [Some 20, Some 30], totalConnections = 3, readOnlyCount = 0 \<rparr>" and a = 5 and ?s0.0 = "\<lparr> db = Some 5, rwstmt = Some 10, rostmts = [Some 20, Some 30] \<rparr>" and ?c0.0 = "Some 30"
      and ?h1.0 = "(\<lambda>a. \<lparr> readWriteDB = Some 10, readOnlyDBs = [Some 20, Some 30], totalConnections = 3, readOnlyCount = 0 \<rparr>)(5 := \<lparr> readWriteDB = Some 10, readOnlyDBs = [Some 20, Some 30], totalConnections = 3, readOnlyCount = 1 \<rparr>)"
      and sched = "\<lparr> run_picks = [2, 0], send_picks = [1] \<rparr>" and ?f1.0 = "\<lambda>c. None"
      and ?f2.0 = "\<lambda>c. if c = Some 30 then Some (Error ''down'') else None"
      and ?f4.0 = "\<lambda>c q. (c, None)" and this = 5 and query = "''SELECT 1''" and s = "\<lparr> db = Some 5, rwstmt = Some 10, rostmts = [Some 20, Some 30] \<rparr>"
      and ?e0.0 = None and h = "\<lambda>a. \<lparr> readWriteDB = Some 10, readOnlyDBs = [Some 20, Some 30], totalConnections = 3, readOnlyCount = 7 \<rparr>" and c = 7 and sched' = "\<lparr> run_picks = [1, 1], send_picks = [2] \<rparr>"
      and ?f6.0 = "\<lambda>c. if c = Some 20 then Some (Error ''busy'') else None"]
      opened calls closed pinged prepared stmt_closed
    by (simp add: WrapDBs_def conn_inv_def index_def ROStmt_def through_def roundRobin_def Let_def)
qed

section \<open>Pool configuration is sequential\<close>

lemma foldl_log: "foldl (\<lambda>w c. w @ [g c]) w0 xs = w0 @ map g xs"
  by (induction xs arbitrary: w0) simp_all

lemma foldl_index: "foldl (\<lambda>w i. f (xs ! i) w) w0 [0 ..< length xs] = foldl (\<lambda>w c. f c w) w0 xs"
proof -
  have "foldl (\<lambda>w c. f c w) w0 (map ((!) xs) [0 ..< length xs])
          = foldl (\<lambda>w i. f (xs ! i) w) w0 [0 ..< length xs]"
    by (simp only: foldl_map)
  then show ?thesis by (simp only: map_nth)
qed

text \<open>
  C9. Each of \<open>SetMaxIdleConns\<close>, \<open>SetMaxOpenConns\<close>, \<open>SetConnMaxLifetime\<close> and
  \<open>SetConnMaxIdleTime\<close> applies the library's setter, with the value given, to the primary
  first and then to each replica in the order of the replica list, each one acting on the
  state the one before left. With a setter that only records its call, the record is the
  primary followed by the replicas in order, each with the value. The operations return
  nothing but the changed outside state: there is no error to return.
\<close>

theorem setters_sequential:
  "SetMaxIdleConns f1 n d w = fold (\<lambda>c. f1 c n) (readWriteDB d # readOnlyDBs d) w
   \<and> SetMaxOpenConns f2 n d w = fold (\<lambda>c. f2 c n) (readWriteDB d # readOnlyDBs d) w
   \<and> SetConnMaxLifetime f3 t d w = fold (\<lambda>c. f3 c t) (readWriteDB d # readOnlyDBs d) w
   \<and> SetConnMaxIdleTime f4 t d w = fold (\<lambda>c. f4 c t) (readWriteDB d # readOnlyDBs d) w
   \<and> SetMaxIdleConns (\<lambda>c n log. log @ [(c, n)]) n d log
       = log @ map (\<lambda>c. (c, n)) (readWriteDB d # readOnlyDBs d)
   \<and> SetMaxOpenConns (\<lambda>c n log. log @ [(c, n)]) n d log
       = log @ map (\<lambda>c. (c, n)) (readWriteDB d # readOnlyDBs d)
   \<and> SetConnMaxLifetime (\<lambda>c t log. log @ [(c, t)]) t d log'
       = log' @ map (\<lambda>c. (c, t)) (readWriteDB d # readOnlyDBs d)
   \<and> SetConnMaxIdleTime (\<lambda>c t log. log @ [(c, t)]) t d log'
       = log' @ map (\<lambda>c. (c, t)) (readWriteDB d # readOnlyDBs d)"
proof -
  have idle: "SetMaxIdleConns f n d w = fold (\<lambda>c. f c n) (readWriteDB d # readOnlyDBs d) w" for f and w :: 'x
    by (simp add: SetMaxIdleConns_def foldl_conv_fold)
  have opn: "SetMaxOpenConns f n d w = fold (\<lambda>c. f c n) (readWriteDB d # readOnlyDBs d) w" for f and w :: 'x
    by (simp add: SetMaxOpenConns_def foldl_conv_fold)
  have life: "SetConnMaxLifetime f t d w = fold (\<lambda>c. f c t) (readWriteDB d # readOnlyDBs d) w" for f and w :: 'x
    by (simp add: SetConnMaxLifetime_def foldl_conv_fold)
  have idlet: "SetConnMaxIdleTime f t d w = fold (\<lambda>c. f c t) (readWriteDB d # readOnlyDBs d) w" for f and w :: 'x
    unfolding SetConnMaxIdleTime_def foldl_index [of "\<lambda>c. f c t"]
    by (simp add: foldl_conv_fold)
  have log: "fold (\<lambda>c l. l @ [(c, v)]) xs l0 = l0 @ map (\<lambda>c. (c, v)) xs" for v :: 'v and xs :: "'c list" and l0
    using foldl_log [of "\<lambda>c. (c, v)" l0 xs] by (simp add: foldl_conv_fold)
  show ?thesis
    unfolding idle opn life idlet log by simp
qed

section \<open>Reads through the pointer of a statement\<close>

lemma ROStmt_replicas:
  assumes "db s = Some a" "0 < length (rostmts s)" "int (length (rostmts s)) < 2 ^ 63"
  shows "ROStmt s h =
           Inr (rostmts s ! (unat (readOnlyCount (h a) + 1) mod length (rostmts s)),
                h(a := (h a)\<lparr> readOnlyCount := readOnlyCount (h a) + 1 \<rparr>))"
proof -
  let ?R = "length (rostmts s)"
  have rr: "roundRobin (int ?R) (h a) =
              Inr (int (unat (readOnlyCount (h a) + 1) mod ?R),
                   (h a)\<lparr> readOnlyCount := readOnlyCount (h a) + 1 \<rparr>)"
    using roundRobin_len [of "int ?R" "h a"] assms(2,3) by simp
  have "unat (readOnlyCount (h a) + 1) mod ?R < ?R" using assms(2) by simp
  then show ?thesis
    using assms(1,2) rr by (simp add: ROStmt_def through_def index_def)
qed

lemma through_ReadOnly_replicas:
  assumes "conn_inv (h a)" "0 < length (readOnlyDBs (h a))" "int (length (readOnlyDBs (h a))) < 2 ^ 63"
  shows "through (Some a) ReadOnly h =
           Inr (readOnlyDBs (h a) ! (unat (readOnlyCount (h a) + 1) mod length (readOnlyDBs (h a))),
                h(a := (h a)\<lparr> readOnlyCount := readOnlyCount (h a) + 1 \<rparr>))"
  by (simp add: through_def ReadOnly_replicas [OF assms])

lemma next_index:
  fixes c :: "64 word"
  assumes "unat (c + 1) + 1 < 2 ^ 64 \<or> R dvd 2 ^ 64"
  shows "unat (c + 2) mod R = (unat (c + 1) mod R + 1) mod R"
proof -
  have a: "unat (c + 1) + Suc 0 < 2 ^ 64 \<or> R dvd 2 ^ 64" using assms by simp
  have "unat (c + 1 + 1 + of_nat 0) mod R = (unat (c + 1) + 1 + 0) mod R"
    by (rule unat_counter_steps [OF a])
  moreover have "c + 1 + 1 + of_nat 0 = c + 2" by simp
  ultimately have "unat (c + 2) mod R = (unat (c + 1) + 1 + 0) mod R" by (simp only:)
  then have "unat (c + 2) mod R = (unat (c + 1) + 1) mod R" by (simp only: add_0_right)
  also have "\<dots> = (unat (c + 1) mod R + 1) mod R" by (simp add: mod_Suc_eq)
  finally show ?thesis .
qed

section \<open>One counter for the connection set and its statements\<close>

text \<open>
  C5 (as amended). Let a connection set with \<open>R \<ge> 1\<close> replicas live at address \<open>a\<close>,
  with its counter at \<open>c\<close>, and let \<open>s\<close> be a statement that \<open>Prepare\<close> returned for
  it. The statement points to \<open>a\<close>. A \<open>ReadOnly()\<close> call on the set followed by a
  \<open>Query()\<close> call on the statement advance the one counter stored at \<open>a\<close>: the first
  call selects index \<open>((c + 1) mod 2^64) mod R\<close> of the replicas and leaves \<open>c + 1\<close>, the
  second selects index \<open>((c + 2) mod 2^64) mod R\<close> of the statement's replica handles and
  leaves \<open>c + 2\<close>. If the counter does not wrap around \<open>2^64\<close> between the two calls
  (the first call does not leave \<open>2^64 - 1\<close>), or if \<open>R\<close> divides \<open>2^64\<close>, the second
  index is the first plus one, modulo \<open>R\<close>.
\<close>

theorem shared_counter:
  assumes inv: "conn_inv d" and R: "R = length (readOnlyDBs d)" "0 < R" "int R < 2 ^ 63"
    and prep: "Prepare sql_Prepare a d query sched = Inr (Some s, e)"
    and h: "h a = d"
  shows "\<exists>h1 h2.
           through (db s) ReadOnly h = Inr (readOnlyDBs d ! (unat (readOnlyCount d + 1) mod R), h1)
         \<and> ROStmt s h1 = Inr (rostmts s ! (unat (readOnlyCount d + 2) mod R), h2)
         \<and> stmt_Query f s args h1 = Inr (f (rostmts s ! (unat (readOnlyCount d + 2) mod R)) args, h2)
         \<and> readOnlyCount (h1 a) = readOnlyCount d + 1
         \<and> readOnlyCount (h2 a) = readOnlyCount d + 2
         \<and> (unat (readOnlyCount d + 1) + 1 < 2 ^ 64 \<or> R dvd 2 ^ 64 \<longrightarrow>
              unat (readOnlyCount d + 2) mod R = (unat (readOnlyCount d + 1) mod R + 1) mod R)"
proof -
  let ?c = "readOnlyCount d"
  let ?h1 = "h(a := d\<lparr> readOnlyCount := ?c + 1 \<rparr>)"
  let ?h2 = "h(a := d\<lparr> readOnlyCount := ?c + 2 \<rparr>)"
  from Prepare_success [OF inv prep]
  have dbs: "db s = Some a" and len: "length (rostmts s) = R" using R(1) by simp_all
  have pre: "conn_inv (h a)" "0 < length (readOnlyDBs (h a))" "int (length (readOnlyDBs (h a))) < 2 ^ 63"
    using inv R h by simp_all
  have first: "through (db s) ReadOnly h = Inr (readOnlyDBs d ! (unat (?c + 1) mod R), ?h1)"
    using through_ReadOnly_replicas [of h a, OF pre] h R(1) dbs by simp
  have pre2: "0 < length (rostmts s)" "int (length (rostmts s)) < 2 ^ 63"
    using len R by simp_all
  have second: "ROStmt s ?h1 = Inr (rostmts s ! (unat (?c + 2) mod R), ?h2)"
    using ROStmt_replicas [of s a ?h1, OF dbs pre2] len by (simp add: add.commute)
  have query: "stmt_Query f s args ?h1 = Inr (f (rostmts s ! (unat (?c + 2) mod R)) args, ?h2)"
    by (simp add: stmt_Query_def second)
  have c1: "readOnlyCount (?h1 a) = ?c + 1" and c2: "readOnlyCount (?h2 a) = ?c + 2" by simp_all
  have nxt: "unat (?c + 1) + 1 < 2 ^ 64 \<or> R dvd 2 ^ 64 \<longrightarrow>
              unat (?c + 2) mod R = (unat (?c + 1) mod R + 1) mod R"
    using next_index [of ?c R] by blast
  show ?thesis
    by (intro exI conjI) (fact first, fact second, fact query, fact c1, fact c2, fact nxt)
qed


text \<open>A set of two replicas at address 5 with the counter at 7: the read on the set
  takes replica 0 and the query of the statement takes replica 1.\<close>

theorem shared_counter_witness:
  "conn_inv \<lparr> readWriteDB = Some 10, readOnlyDBs = [Some 20, Some 30], totalConnections = 3, readOnlyCount = 7 \<rparr>
   \<and> Prepare (\<lambda>c q. (c, None)) 5 \<lparr> readWriteDB = Some 10, readOnlyDBs = [Some 20, Some 30], totalConnections = 3, readOnlyCount = 7 \<rparr> ''SELECT 1'' \<lparr> run_picks = [2, 0], send_picks = [1] \<rparr> = Inr (Some \<lparr> db = Some 5, rwstmt = Some 10, rostmts = [Some 20, Some 30] \<rparr>, None)
   \<and> unat (readOnlyCount \<lparr> readWriteDB = Some 10, readOnlyDBs = [Some 20, Some 30], totalConnections = 3, readOnlyCount = 7 \<rparr> + 1) + 1 < 2 ^ 64
   \<and> through (db \<lparr> db = Some 5, rwstmt = Some 10, rostmts = [Some 20, Some 30] \<rparr>) ReadOnly (\<lambda>a. \<lparr> readWriteDB = Some 10, readOnlyDBs = [Some 20, Some 30], totalConnections = 3, readOnlyCount = 7 \<rparr>) = Inr ([Some 20, Some 30] ! 0, (\<lambda>a. \<lparr> readWriteDB = Some 10, readOnlyDBs = [Some 20, Some 30], totalConnections = 3, readOnlyCount = 7 \<rparr>)(5 := \<lparr> readWriteDB = Some 10, readOnlyDBs = [Some 20, Some 30], totalConnections = 3, readOnlyCount = 8 \<rparr>))
   \<and> stmt_Query (\<lambda>c args. (c, args)) \<lparr> db = Some 5, rwstmt = Some 10, rostmts = [Some 20, Some 30] \<rparr> [True] ((\<lambda>a. \<lparr> readWriteDB = Some 10, readOnlyDBs = [Some 20, Some 30], totalConnections = 3, readOnlyCount = 7 \<rparr>)(5 := \<lparr> readWriteDB = Some 10, readOnlyDBs = [Some 20, Some 30], totalConnections = 3, readOnlyCount = 8 \<rparr>))
       = Inr (([Some 20, Some 30] ! 1, [True]), (\<lambda>a. \<lparr> readWriteDB = Some 10, readOnlyDBs = [Some 20, Some 30], totalConnections = 3, readOnlyCount = 7 \<rparr>)(5 := \<lparr> readWriteDB = Some 10, readOnlyDBs = [Some 20, Some 30], totalConnections = 3, readOnlyCount = 9 \<rparr>))"
proof -
  have prepared: "Prepare (\<lambda>c q. (c, None)) 5 \<lparr> readWriteDB = Some 10, readOnlyDBs = [Some 20, Some 30], totalConnections = 3, readOnlyCount = 7 \<rparr> ''SELECT 1''
        \<lparr> run_picks = [2, 0], send_picks = [1] \<rparr> = Inr (Some \<lparr> db = Some 5, rwstmt = Some 10, rostmts = [Some 20, Some 30] \<rparr>, None)"
    by code_simp
  show ?thesis
    using shared_counter [where d = "\<lparr> readWriteDB = Some 10, readOnlyDBs = [Some 20, Some 30], totalConnections = 3, readOnlyCount = 7 \<rparr>" and R = 2 and sched = "\<lparr> run_picks = [2, 0], send_picks = [1] \<rparr>"
        and sql_Prepare = "\<lambda>c q. (c, None)" and a = 5 and query = "''SELECT 1''" and s = "\<lparr> db = Some 5, rwstmt = Some 10, rostmts = [Some 20, Some 30] \<rparr>"
        and e = None and h = "\<lambda>a. \<lparr> readWriteDB = Some 10, readOnlyDBs = [Some 20, Some 30], totalConnections = 3, readOnlyCount = 7 \<rparr>" and f = "\<lambda>c args. (c, args)" and args = "[True]"] prepared
    by (simp add: conn_inv_def index_def through_def ReadOnly_def roundRobin_def Let_def
          stmt_Query_def ROStmt_def)
qed

text \<open>
  The claim as written fails where the counter wraps. With three replicas and the counter
  at \<open>2^64 - 2\<close> the read on the set uses the counter value \<open>2^64 - 1\<close>, index 0, and the
  query of the statement uses the value 0, index 0 again and not 1.
\<close>

theorem shared_counter_wrap_counterexample:
  "through (Some 5) ReadOnly (\<lambda>a. \<lparr> readWriteDB = Some 10, readOnlyDBs = [Some 20, Some 30, Some 40], totalConnections = 4, readOnlyCount = 18446744073709551614 \<rparr>) = Inr ([Some 20, Some 30, Some 40] ! 0, (\<lambda>a. \<lparr> readWriteDB = Some 10, readOnlyDBs = [Some 20, Some 30, Some 40], totalConnections = 4, readOnlyCount = 18446744073709551614 \<rparr>)(5 := \<lparr> readWriteDB = Some 10, readOnlyDBs = [Some 20, Some 30, Some 40], totalConnections = 4, readOnlyCount = 18446744073709551615 \<rparr>))
   \<and> stmt_Query (\<lambda>c args. (c, args)) \<lparr> db = Some 5, rwstmt = Some 11, rostmts = [Some 21, Some 31, Some 41] \<rparr> [True] ((\<lambda>a. \<lparr> readWriteDB = Some 10, readOnlyDBs = [Some 20, Some 30, Some 40], totalConnections = 4, readOnlyCount = 18446744073709551614 \<rparr>)(5 := \<lparr> readWriteDB = Some 10, readOnlyDBs = [Some 20, Some 30, Some 40], totalConnections = 4, readOnlyCount = 18446744073709551615 \<rparr>))
       = Inr (([Some 21, Some 31, Some 41] ! 0, [True]), (\<lambda>a. \<lparr> readWriteDB = Some 10, readOnlyDBs = [Some 20, Some 30, Some 40], totalConnections = 4, readOnlyCount = 18446744073709551614 \<rparr>)(5 := \<lparr> readWriteDB = Some 10, readOnlyDBs = [Some 20, Some 30, Some 40], totalConnections = 4, readOnlyCount = 0 \<rparr>))"
proof -
  have wrap: "(18446744073709551616 :: 64 word) = 0" by simp
  show ?thesis
    by (simp add: through_def ReadOnly_def roundRobin_def Let_def index_def stmt_Query_def
          ROStmt_def wrap)
qed

section \<open>Calls of \<open>roundRobin\<close> that run at the same time\<close>

text \<open>
  While calls of \<open>roundRobin\<close> interleave, each call has either made its atomic addition
  or not yet. The calls that have made it have received the values that follow the
  starting value \<open>c\<close>, each once, and the counter holds the last of them.
\<close>

lemma step_cases:
  assumes shape: "\<forall>call \<in> set calls. fst call = [] \<or> fst call = roundRobin_accesses"
  shows "step t (counter, calls) = (counter, calls)
           \<and> (t < length calls \<longrightarrow> fst (calls ! t) = [])
       \<or> (t < length calls \<and> fst (calls ! t) = roundRobin_accesses
           \<and> step t (counter, calls) = (counter + 1, calls[t := ([], counter + 1)]))"
proof (cases "t < length calls")
  case False
  then show ?thesis by (simp add: step_def)
next
  case True
  obtain ops reg where t: "calls ! t = (ops, reg)" by (cases "calls ! t")
  have "calls ! t \<in> set calls" using True by simp
  with shape t have "ops = [] \<or> ops = roundRobin_accesses" by force
  then show ?thesis
  proof
    assume "ops = []"
    then show ?thesis using True t by (simp add: step_def)
  next
    assume "ops = roundRobin_accesses"
    then show ?thesis using True t by (simp add: step_def roundRobin_accesses_def)
  qed
qed

lemma returned_update:
  assumes "t < length calls" "fst (calls ! t) \<noteq> []"
  shows "returned (calls[t := ([], v)]) = add_mset v (returned calls)"
proof -
  have "filter_mset (\<lambda>call. fst call = []) {#calls ! t#} = {#}" using assms(2) by simp
  then show ?thesis
    unfolding returned_def mset_update [OF assms(1)] by simp
qed

lemma step_inv:
  assumes shape: "\<forall>call \<in> set calls. fst call = [] \<or> fst call = roundRobin_accesses"
    and cnt: "counter = c + of_nat (size (returned calls))"
    and regs: "returned calls = mset (map (\<lambda>j. c + 1 + of_nat j) [0 ..< size (returned calls)])"
    and st: "step t (counter, calls) = (counter', calls')"
  shows "(\<forall>call \<in> set calls'. fst call = [] \<or> fst call = roundRobin_accesses)
       \<and> counter' = c + of_nat (size (returned calls'))
       \<and> returned calls' = mset (map (\<lambda>j. c + 1 + of_nat j) [0 ..< size (returned calls')])
       \<and> length calls' = length calls
       \<and> (\<forall>u < length calls. u = t \<or> fst (calls ! u) = [] \<longrightarrow> fst (calls' ! u) = [])"
  using step_cases [OF shape, of t counter]
proof
  assume "step t (counter, calls) = (counter, calls) \<and> (t < length calls \<longrightarrow> fst (calls ! t) = [])"
  then have "counter' = counter" "calls' = calls" and t: "t < length calls \<longrightarrow> fst (calls ! t) = []"
    using st by simp_all
  then show ?thesis using shape cnt regs by auto
next
  assume a: "t < length calls \<and> fst (calls ! t) = roundRobin_accesses
           \<and> step t (counter, calls) = (counter + 1, calls[t := ([], counter + 1)])"
  then have t: "t < length calls" and nd: "fst (calls ! t) \<noteq> []"
    and c': "counter' = counter + 1" and calls': "calls' = calls[t := ([], counter + 1)]"
    using st by (simp_all add: roundRobin_accesses_def)
  let ?m = "size (returned calls)"
  have ret: "returned calls' = add_mset (counter + 1) (returned calls)"
    unfolding calls' by (rule returned_update [OF t nd])
  then have size: "size (returned calls') = Suc ?m" by simp
  have shape': "\<forall>call \<in> set calls'. fst call = [] \<or> fst call = roundRobin_accesses"
  proof
    fix call assume "call \<in> set calls'"
    then have "call \<in> insert ([], counter + 1) (set calls)"
      unfolding calls' using set_update_subset_insert by fastforce
    then show "fst call = [] \<or> fst call = roundRobin_accesses" using shape by auto
  qed
  have cnt': "counter' = c + of_nat (size (returned calls'))"
    unfolding c' size cnt by simp
  have "counter + 1 = c + 1 + of_nat ?m" unfolding cnt by simp
  then have regs': "returned calls' = mset (map (\<lambda>j. c + 1 + of_nat j) [0 ..< size (returned calls')])"
    unfolding size ret using regs by simp
  have len: "length calls' = length calls" unfolding calls' by simp
  have fin: "\<forall>u < length calls. u = t \<or> fst (calls ! u) = [] \<longrightarrow> fst (calls' ! u) = []"
    unfolding calls' using t by (auto simp: nth_list_update)
  show ?thesis using shape' cnt' regs' len fin by blast
qed


lemma interleaving_inv:
  assumes "\<forall>call \<in> set calls. fst call = [] \<or> fst call = roundRobin_accesses"
    and "counter = c + of_nat (size (returned calls))"
    and "returned calls = mset (map (\<lambda>j. c + 1 + of_nat j) [0 ..< size (returned calls)])"
    and "interleaving turns (counter, calls) = (counter', calls')"
  shows "(\<forall>call \<in> set calls'. fst call = [] \<or> fst call = roundRobin_accesses)
       \<and> counter' = c + of_nat (size (returned calls'))
       \<and> returned calls' = mset (map (\<lambda>j. c + 1 + of_nat j) [0 ..< size (returned calls')])
       \<and> length calls' = length calls
       \<and> (\<forall>u < length calls. u \<in> set turns \<or> fst (calls ! u) = [] \<longrightarrow> fst (calls' ! u) = [])"
  using assms
proof (induction turns arbitrary: counter calls)
  case Nil
  then show ?case by (auto simp: interleaving_def)
next
  case (Cons t turns)
  obtain counter1 calls1 where one: "step t (counter, calls) = (counter1, calls1)"
    by (cases "step t (counter, calls)")
  then have rest: "interleaving turns (counter1, calls1) = (counter', calls')"
    using Cons.prems(4) by (simp add: interleaving_def)
  from step_inv [OF Cons.prems(1,2,3) one]
  have s1: "\<forall>call \<in> set calls1. fst call = [] \<or> fst call = roundRobin_accesses"
    and s2: "counter1 = c + of_nat (size (returned calls1))"
    and s3: "returned calls1 = mset (map (\<lambda>j. c + 1 + of_nat j) [0 ..< size (returned calls1)])"
    and s4: "length calls1 = length calls"
    and s5: "\<forall>u < length calls. u = t \<or> fst (calls ! u) = [] \<longrightarrow> fst (calls1 ! u) = []"
    by blast+
  from Cons.IH [OF s1 s2 s3 rest]
  have r1: "\<forall>call \<in> set calls'. fst call = [] \<or> fst call = roundRobin_accesses"
    and r2: "counter' = c + of_nat (size (returned calls'))"
    and r3: "returned calls' = mset (map (\<lambda>j. c + 1 + of_nat j) [0 ..< size (returned calls')])"
    and r4: "length calls' = length calls1"
    and r5: "\<forall>u < length calls1. u \<in> set turns \<or> fst (calls1 ! u) = [] \<longrightarrow> fst (calls' ! u) = []"
    by blast+
  have fin: "\<forall>u < length calls. u \<in> set (t # turns) \<or> fst (calls ! u) = [] \<longrightarrow> fst (calls' ! u) = []"
    using s4 s5 r5 by auto
  show ?case using r1 r2 r3 r4 s4 fin by simp
qed

lemma distinct_counter_values:
  fixes c :: "64 word"
  assumes "k \<le> 2 ^ 64"
  shows "distinct (map (\<lambda>j. c + 1 + of_nat j) [0 ..< k])"
proof -
  have "inj_on (\<lambda>j. c + 1 + of_nat j) (set [0 ..< k])"
  proof (rule inj_onI)
    fix i j assume i: "i \<in> set [0 ..< k]" and j: "j \<in> set [0 ..< k]"
      and eq: "c + 1 + of_nat i = c + 1 + of_nat j"
    from eq have "(of_nat i :: 64 word) = of_nat j" by simp
    then have "take_bit 64 i = take_bit 64 j" by (simp add: word_of_nat_eq_iff)
    moreover have "i < 2 ^ 64" "j < 2 ^ 64" using i j assms by simp_all
    ultimately show "i = j" by (simp add: take_bit_nat_eq_self)
  qed
  then show ?thesis by (simp add: distinct_map)
qed

lemma concurrent_roundRobin:
  assumes turns: "\<forall>t < k. t \<in> set turns"
  shows "\<exists>calls'. interleaving turns (c, replicate k (roundRobin_accesses, r0)) = (c + of_nat k, calls')
           \<and> (\<forall>call \<in> set calls'. fst call = [])
           \<and> mset (map snd calls') = mset (map (\<lambda>j. c + 1 + of_nat j) [0 ..< k])
           \<and> (k \<le> 2 ^ 64 \<longrightarrow> distinct (map snd calls'))"
proof -
  let ?start = "replicate k (roundRobin_accesses, r0)"
  obtain counter' calls' where run: "interleaving turns (c, ?start) = (counter', calls')"
    by (cases "interleaving turns (c, ?start)")
  have r0: "returned ?start = {#}"
    by (induction k) (simp_all add: returned_def roundRobin_accesses_def)
  have i1: "\<forall>call \<in> set ?start. fst call = [] \<or> fst call = roundRobin_accesses" by simp
  have i2: "c = c + of_nat (size (returned ?start))" unfolding r0 by simp
  have i3: "returned ?start = mset (map (\<lambda>j. c + 1 + of_nat j) [0 ..< size (returned ?start)])"
    unfolding r0 by simp
  from interleaving_inv [OF i1 i2 i3 run]
  have cnt: "counter' = c + of_nat (size (returned calls'))"
    and regs: "returned calls' = mset (map (\<lambda>j. c + 1 + of_nat j) [0 ..< size (returned calls')])"
    and len: "length calls' = length ?start"
    and fin: "\<forall>u < length ?start. u \<in> set turns \<or> fst (?start ! u) = [] \<longrightarrow> fst (calls' ! u) = []"
    by blast+
  have lenk: "length calls' = k" using len by simp
  have finished: "\<forall>u < k. fst (calls' ! u) = []" using fin turns by simp
  have all: "\<forall>call \<in> set calls'. fst call = []"
  proof
    fix call assume "call \<in> set calls'"
    then obtain u where "u < length calls'" "calls' ! u = call"
      by (auto simp: in_set_conv_nth)
    then show "fst call = []" using finished lenk by auto
  qed
  then have "filter_mset (\<lambda>call. fst call = []) (mset calls') = mset calls'"
    by (simp add: filter_mset_eq_conv)
  then have ret: "returned calls' = mset (map snd calls')" by (simp add: returned_def)
  then have size: "size (returned calls') = k" using lenk by simp
  have counter: "counter' = c + of_nat k" using cnt size by simp
  have vals: "mset (map snd calls') = mset (map (\<lambda>j. c + 1 + of_nat j) [0 ..< k])"
    using regs ret size by simp
  have dist: "k \<le> 2 ^ 64 \<longrightarrow> distinct (map snd calls')"
  proof
    assume "k \<le> 2 ^ 64"
    then have "distinct (map (\<lambda>j. c + 1 + of_nat j) [0 ..< k])" by (rule distinct_counter_values)
    then show "distinct (map snd calls')"
      using mset_eq_imp_distinct_iff [OF vals] by simp
  qed
  have run': "interleaving turns (c, ?start) = (c + of_nat k, calls')" using run counter by simp
  show ?thesis
    by (intro exI conjI) (fact run', fact all, fact vals, fact dist)
qed

text \<open>The call alone: the counter and the value received are those of \<open>roundRobin\<close>.\<close>

lemma roundRobin_alone:
  "interleaving [0] (readOnlyCount d, [(roundRobin_accesses, r0)])
     = (readOnlyCount d + 1, [([], readOnlyCount d + 1)])"
  by (simp add: interleaving_def step_def roundRobin_accesses_def)

text \<open>
  The same property fails for an increment made of a read and a write: two such calls,
  each reading before the other writes, receive the same value, and the counter advances
  by one only. So the property of \<open>concurrent_roundRobin\<close> does tell the atomic addition
  of the source from the increment the design warns against.
\<close>

lemma read_then_write_loses_update:
  "interleaving [0, 1, 0, 1] (c, replicate 2 (read_then_write, r0))
     = (c + 1, [([], c + 1), ([], c + 1)])"
  by (simp add: interleaving_def step_def read_then_write_def numeral_2_eq_2)

section \<open>The counter only advances\<close>

lemma counter_succ:
  fixes x :: "64 word"
  shows "if x = - 1 then x + 1 = 0 else unat (x + 1) = unat x + 1"
proof (cases "x = - 1")
  case True
  then show ?thesis by simp
next
  case False
  then have "1 + x \<noteq> 0" by (metis add.commute add_eq_0_iff)
  then have "unat (1 + x) = Suc (unat x)" by (rule unatSuc)
  with False show ?thesis by (simp add: add.commute)
qed

text \<open>
  C8 (as amended). \<open>roundRobin\<close> adds exactly one to the 64-bit counter and changes
  nothing else; the new value is one more than the old, except that \<open>2^64 - 1\<close> is
  followed by 0. \<open>ReadOnly()\<close> advances the counter by one when the set has replicas and
  leaves the set as it is when \<open>totalConnections\<close> is 1; \<open>ROStmt()\<close> advances by one
  the counter of the set the statement points to when the statement has replica handles,
  and leaves every connection set as it is otherwise. The \<open>Query\<close> methods of a set and
  of a statement change a set only through \<open>ReadOnly()\<close> and \<open>ROStmt()\<close>. A wrapped set
  starts at 0. No other operation returns a changed connection set: nothing assigns the
  counter, so it is never reset.

  The addition is atomic. A call of \<open>roundRobin\<close> is the single access
  \<open>roundRobin_accesses\<close> to the shared counter: run alone it leaves the counter and
  receives the value that \<open>roundRobin\<close> computes its index from. And when \<open>m\<close> calls run
  at the same time on a counter that holds \<open>c0\<close>, then in whatever order their accesses
  interleave, once each call has had its turn all have returned, the counter holds
  \<open>c0 + m\<close>, and the calls have received the values \<open>c0 + 1\<close>, ..., \<open>c0 + m\<close>, each of
  them once: no addition is lost, and no two of up to \<open>2^64\<close> calls receive the same
  value.
\<close>

theorem counter_only_advances:
  "(roundRobin n d = Inr (i, d') \<longrightarrow>
      d' = d\<lparr> readOnlyCount := readOnlyCount d + 1 \<rparr>
      \<and> (if readOnlyCount d = - 1 then readOnlyCount d' = 0
          else unat (readOnlyCount d') = unat (readOnlyCount d) + 1))
   \<and> (ReadOnly d = Inr (c, d1) \<longrightarrow>
      d1 = d\<lparr> readOnlyCount := (if totalConnections d = 1 then readOnlyCount d
                                   else readOnlyCount d + 1) \<rparr>)
   \<and> (ROStmt s h = Inr (c', h') \<longrightarrow>
      (\<forall>a. h' a = (h a)\<lparr> readOnlyCount :=
                 (if db s = Some a \<and> rostmts s \<noteq> [] then readOnlyCount (h a) + 1
                  else readOnlyCount (h a)) \<rparr>))
   \<and> (ReadOnly_calls k d = Inr (cs, d2) \<longrightarrow>
      d2 = d\<lparr> readOnlyCount := (if totalConnections d = 1 then readOnlyCount d
                                   else readOnlyCount d + of_nat k) \<rparr>)
   \<and> (Query f1 query args d = Inr (r1, d3) \<or> QueryRow f1 query args d = Inr (r1, d3)
      \<or> QueryContext f2 ctx query args d = Inr (r2, d3)
      \<or> QueryRowContext f2 ctx query args d = Inr (r2, d3)
      \<longrightarrow> (\<exists>c. ReadOnly d = Inr (c, d3)))
   \<and> (stmt_Query g1 s args h = Inr (r3, h3) \<or> stmt_QueryRow g1 s args h = Inr (r3, h3)
      \<or> stmt_QueryContext g2 s ctx args h = Inr (r4, h3)
      \<or> stmt_QueryRowContext g2 s ctx args h = Inr (r4, h3)
      \<longrightarrow> (\<exists>c. ROStmt s h = Inr (c, h3)))
   \<and> (WrapDBs dbs = Inr d0 \<longrightarrow> readOnlyCount d0 = 0)
   \<and> (roundRobin n d = Inr (i, d') \<longrightarrow>
      interleaving [0] (readOnlyCount d, [(roundRobin_accesses, r0)])
        = (readOnlyCount d', [([], readOnlyCount d')])
      \<and> i = sint (readOnlyCount d' mod word_of_int n))
   \<and> ((\<forall>t < m. t \<in> set turns) \<longrightarrow>
      (\<exists>calls'. interleaving turns (c0, replicate m (roundRobin_accesses, r0))
                  = (c0 + of_nat m, calls')
         \<and> (\<forall>call \<in> set calls'. fst call = [])
         \<and> mset (map snd calls') = mset (map (\<lambda>j. c0 + 1 + of_nat j) [0 ..< m])
         \<and> (m \<le> 2 ^ 64 \<longrightarrow> distinct (map snd calls'))))"
proof -
  have rr: "roundRobin n d = Inr (i, d') \<longrightarrow>
      d' = d\<lparr> readOnlyCount := readOnlyCount d + 1 \<rparr>
      \<and> (if readOnlyCount d = - 1 then readOnlyCount d' = 0
          else unat (readOnlyCount d') = unat (readOnlyCount d) + 1)"
  proof
    assume "roundRobin n d = Inr (i, d')"
    then have d': "d' = d\<lparr> readOnlyCount := readOnlyCount d + 1 \<rparr>" by (rule roundRobin_frame)
    then have "readOnlyCount d' = readOnlyCount d + 1" by simp
    with d' counter_succ [of "readOnlyCount d"]
    show "d' = d\<lparr> readOnlyCount := readOnlyCount d + 1 \<rparr>
      \<and> (if readOnlyCount d = - 1 then readOnlyCount d' = 0
          else unat (readOnlyCount d') = unat (readOnlyCount d) + 1)"
      by (simp split: if_splits)
  qed
  have ro: "ReadOnly d = Inr (c, d1) \<longrightarrow>
      d1 = d\<lparr> readOnlyCount := (if totalConnections d = 1 then readOnlyCount d
                                   else readOnlyCount d + 1) \<rparr>"
    using ReadOnly_frame [of d c d1] by blast
  have st: "ROStmt s h = Inr (c', h') \<longrightarrow>
      (\<forall>a. h' a = (h a)\<lparr> readOnlyCount :=
                 (if db s = Some a \<and> rostmts s \<noteq> [] then readOnlyCount (h a) + 1
                  else readOnlyCount (h a)) \<rparr>)"
  proof
    assume r: "ROStmt s h = Inr (c', h')"
    show "\<forall>a. h' a = (h a)\<lparr> readOnlyCount :=
                 (if db s = Some a \<and> rostmts s \<noteq> [] then readOnlyCount (h a) + 1
                  else readOnlyCount (h a)) \<rparr>"
    proof (cases "rostmts s = []")
      case True
      then have "h' = h" using r by (simp add: ROStmt_def)
      then show ?thesis using True by simp
    next
      case False
      with ROStmt_frame [OF r] have "h' = h \<or> (\<exists>b. db s = Some b
          \<and> h' = h(b := (h b)\<lparr> readOnlyCount := readOnlyCount (h b) + 1 \<rparr>))" by blast
      moreover have "h' \<noteq> h \<or> False" if "h' = h"
      proof -
        from False obtain j where "through (db s) (roundRobin (int (length (rostmts s)))) h = Inr (j, h')"
          using r by (auto simp: ROStmt_def split: sum.splits)
        from through_frame [OF this] obtain b where
          "h' = h(b := (h b)\<lparr> readOnlyCount := readOnlyCount (h b) + 1 \<rparr>)" by blast
        then have "readOnlyCount (h' b) = readOnlyCount (h b) + 1" by simp
        with that show ?thesis by simp
      qed
      ultimately obtain b where b: "db s = Some b"
          "h' = h(b := (h b)\<lparr> readOnlyCount := readOnlyCount (h b) + 1 \<rparr>)" by blast
      show ?thesis using b False by simp
    qed
  qed
  have calls: "ReadOnly_calls k d = Inr (cs, d2) \<longrightarrow>
      d2 = d\<lparr> readOnlyCount := (if totalConnections d = 1 then readOnlyCount d
                                   else readOnlyCount d + of_nat k) \<rparr>"
  proof (induction k arbitrary: d cs)
    case 0
    then show ?case by simp
  next
    case (Suc k)
    show ?case
    proof
      assume "ReadOnly_calls (Suc k) d = Inr (cs, d2)"
      then obtain x dm cs' where one: "ReadOnly d = Inr (x, dm)"
        and rest: "ReadOnly_calls k dm = Inr (cs', d2)"
        by (auto split: sum.splits)
      from ReadOnly_frame [OF one] have dm: "dm = d\<lparr> readOnlyCount :=
          (if totalConnections d = 1 then readOnlyCount d else readOnlyCount d + 1) \<rparr>" .
      from Suc.IH [of dm cs'] rest have "d2 = dm\<lparr> readOnlyCount :=
          (if totalConnections dm = 1 then readOnlyCount dm else readOnlyCount dm + of_nat k) \<rparr>"
        by blast
      then show "d2 = d\<lparr> readOnlyCount := (if totalConnections d = 1 then readOnlyCount d
                                   else readOnlyCount d + of_nat (Suc k)) \<rparr>"
        unfolding dm by (simp add: add.assoc)
    qed
  qed
  have q: "Query f1 query args d = Inr (r1, d3) \<or> QueryRow f1 query args d = Inr (r1, d3)
      \<or> QueryContext f2 ctx query args d = Inr (r2, d3)
      \<or> QueryRowContext f2 ctx query args d = Inr (r2, d3)
      \<longrightarrow> (\<exists>c. ReadOnly d = Inr (c, d3))"
    by (auto simp: Query_def QueryRow_def QueryContext_def QueryRowContext_def split: sum.splits)
  have sq: "stmt_Query g1 s args h = Inr (r3, h3) \<or> stmt_QueryRow g1 s args h = Inr (r3, h3)
      \<or> stmt_QueryContext g2 s ctx args h = Inr (r4, h3)
      \<or> stmt_QueryRowContext g2 s ctx args h = Inr (r4, h3)
      \<longrightarrow> (\<exists>c. ROStmt s h = Inr (c, h3))"
    by (auto simp: stmt_Query_def stmt_QueryRow_def stmt_QueryContext_def stmt_QueryRowContext_def
        split: sum.splits)
  have wrap: "WrapDBs dbs = Inr d0 \<longrightarrow> readOnlyCount d0 = 0"
    by (auto simp: WrapDBs_def split: if_splits)
  have alone: "roundRobin n d = Inr (i, d') \<longrightarrow>
      interleaving [0] (readOnlyCount d, [(roundRobin_accesses, r0)])
        = (readOnlyCount d', [([], readOnlyCount d')])
      \<and> i = sint (readOnlyCount d' mod word_of_int n)"
  proof
    assume r: "roundRobin n d = Inr (i, d')"
    then have "d' = d\<lparr> readOnlyCount := readOnlyCount d + 1 \<rparr>" by (rule roundRobin_frame)
    then have c: "readOnlyCount d' = readOnlyCount d + 1" by simp
    have i: "i = sint (readOnlyCount d' mod word_of_int n)"
      using r unfolding c by (auto simp: roundRobin_def Let_def split: if_splits)
    show "interleaving [0] (readOnlyCount d, [(roundRobin_accesses, r0)])
        = (readOnlyCount d', [([], readOnlyCount d')])
      \<and> i = sint (readOnlyCount d' mod word_of_int n)"
      using i unfolding c by (simp add: roundRobin_alone)
  qed
  have conc: "(\<forall>t < m. t \<in> set turns) \<longrightarrow>
      (\<exists>calls'. interleaving turns (c0, replicate m (roundRobin_accesses, r0))
                  = (c0 + of_nat m, calls')
         \<and> (\<forall>call \<in> set calls'. fst call = [])
         \<and> mset (map snd calls') = mset (map (\<lambda>j. c0 + 1 + of_nat j) [0 ..< m])
         \<and> (m \<le> 2 ^ 64 \<longrightarrow> distinct (map snd calls')))"
    using concurrent_roundRobin [of m turns c0 r0] by blast
  show ?thesis
    by (intro conjI) (fact rr, fact ro, fact st, fact calls, fact q, fact sq, fact wrap,
        fact alone, fact conc)
qed


text \<open>Two replicas and the counter at 7: a read on the set, a read through a statement
  and a query each leave 8, two reads leave 9; and of two calls of \<open>roundRobin\<close> at the
  same time, the second taking its turn first, the second receives 8 and the first 9.\<close>

theorem counter_only_advances_witness:
  "roundRobin 2 \<lparr> readWriteDB = Some 10, readOnlyDBs = [Some 20, Some 30], totalConnections = 3, readOnlyCount = 7 \<rparr> = Inr (0, \<lparr> readWriteDB = Some 10, readOnlyDBs = [Some 20, Some 30], totalConnections = 3, readOnlyCount = 8 \<rparr>)
   \<and> unat (readOnlyCount \<lparr> readWriteDB = Some 10, readOnlyDBs = [Some 20, Some 30], totalConnections = 3, readOnlyCount = 8 \<rparr>) = unat (readOnlyCount \<lparr> readWriteDB = Some 10, readOnlyDBs = [Some 20, Some 30], totalConnections = 3, readOnlyCount = 7 \<rparr>) + 1
   \<and> ReadOnly \<lparr> readWriteDB = Some 10, readOnlyDBs = [Some 20, Some 30], totalConnections = 3, readOnlyCount = 7 \<rparr> = Inr (Some 20, \<lparr> readWriteDB = Some 10, readOnlyDBs = [Some 20, Some 30], totalConnections = 3, readOnlyCount = 8 \<rparr>)
   \<and> ROStmt \<lparr> db = Some 5, rwstmt = Some 10, rostmts = [Some 20, Some 30] \<rparr> (\<lambda>a. \<lparr> readWriteDB = Some 10, readOnlyDBs = [Some 20, Some 30], totalConnections = 3, readOnlyCount = 7 \<rparr>) = Inr (Some 20, (\<lambda>a. \<lparr> readWriteDB = Some 10, readOnlyDBs = [Some 20, Some 30], totalConnections = 3, readOnlyCount = 7 \<rparr>)(5 := \<lparr> readWriteDB = Some 10, readOnlyDBs = [Some 20, Some 30], totalConnections = 3, readOnlyCount = 8 \<rparr>))
   \<and> ReadOnly_calls 2 \<lparr> readWriteDB = Some 10, readOnlyDBs = [Some 20, Some 30], totalConnections = 3, readOnlyCount = 7 \<rparr> = Inr ([Some 20, Some 30], \<lparr> readWriteDB = Some 10, readOnlyDBs = [Some 20, Some 30], totalConnections = 3, readOnlyCount = 9 \<rparr>)
   \<and> Query (\<lambda>c query args. (c, query, args)) ''SELECT 1'' [True] \<lparr> readWriteDB = Some 10, readOnlyDBs = [Some 20, Some 30], totalConnections = 3, readOnlyCount = 7 \<rparr>
       = Inr ((Some 20, ''SELECT 1'', [True]), \<lparr> readWriteDB = Some 10, readOnlyDBs = [Some 20, Some 30], totalConnections = 3, readOnlyCount = 8 \<rparr>)
   \<and> stmt_Query (\<lambda>c args. (c, args)) \<lparr> db = Some 5, rwstmt = Some 10, rostmts = [Some 20, Some 30] \<rparr> [True] (\<lambda>a. \<lparr> readWriteDB = Some 10, readOnlyDBs = [Some 20, Some 30], totalConnections = 3, readOnlyCount = 7 \<rparr>)
       = Inr ((Some 20, [True]), (\<lambda>a. \<lparr> readWriteDB = Some 10, readOnlyDBs = [Some 20, Some 30], totalConnections = 3, readOnlyCount = 7 \<rparr>)(5 := \<lparr> readWriteDB = Some 10, readOnlyDBs = [Some 20, Some 30], totalConnections = 3, readOnlyCount = 8 \<rparr>))
   \<and> WrapDBs [Some 10, Some 20, Some 30] = Inr \<lparr> readWriteDB = Some 10, readOnlyDBs = [Some 20, Some 30], totalConnections = 3, readOnlyCount = 0 \<rparr>
   \<and> interleaving [0] (7, [(roundRobin_accesses, 0)]) = (8, [([], 8)])
   \<and> (0 :: int) = sint ((8 :: 64 word) mod word_of_int 2)
   \<and> interleaving [1, 0] (7, replicate 2 (roundRobin_accesses, 0)) = (9, [([], 9), ([], 8)])
   \<and> mset [9, 8 :: 64 word] = mset (map (\<lambda>j. 7 + 1 + of_nat j) [0 ..< 2])
   \<and> distinct [9, 8 :: 64 word]"
proof -
  have calls: "ReadOnly_calls 2 \<lparr> readWriteDB = Some 10, readOnlyDBs = [Some 20, Some 30], totalConnections = 3, readOnlyCount = 7 \<rparr> = Inr ([Some 20, Some 30], \<lparr> readWriteDB = Some 10, readOnlyDBs = [Some 20, Some 30], totalConnections = 3, readOnlyCount = 9 \<rparr>)"
    by code_simp
  have turns: "\<forall>t < (2 :: nat). t \<in> set [1, 0]" by auto
  have run: "interleaving [1, 0] (7, replicate 2 (roundRobin_accesses, 0)) = (9, [([], 9), ([], 8)])"
    by code_simp
  have alone: "interleaving [0] (7, [(roundRobin_accesses, 0)]) = (8, [([], 8)])"
    by code_simp
  have ix: "(0 :: int) = sint ((8 :: 64 word) mod word_of_int 2)" by simp
  have vals: "mset [9, 8 :: 64 word] = mset (map (\<lambda>j. 7 + 1 + of_nat j) [0 ..< 2])"
    by code_simp
  show ?thesis
    using turns run alone ix vals counter_only_advances [where n = 2 and d = "\<lparr> readWriteDB = Some 10, readOnlyDBs = [Some 20, Some 30], totalConnections = 3, readOnlyCount = 7 \<rparr>" and i = 0 and d' = "\<lparr> readWriteDB = Some 10, readOnlyDBs = [Some 20, Some 30], totalConnections = 3, readOnlyCount = 8 \<rparr>"
        and c = "Some 20" and ?d1.0 = "\<lparr> readWriteDB = Some 10, readOnlyDBs = [Some 20, Some 30], totalConnections = 3, readOnlyCount = 8 \<rparr>" and s = "\<lparr> db = Some 5, rwstmt = Some 10, rostmts = [Some 20, Some 30] \<rparr>" and h = "\<lambda>a. \<lparr> readWriteDB = Some 10, readOnlyDBs = [Some 20, Some 30], totalConnections = 3, readOnlyCount = 7 \<rparr>" and c' = "Some 20"
        and h' = "(\<lambda>a. \<lparr> readWriteDB = Some 10, readOnlyDBs = [Some 20, Some 30], totalConnections = 3, readOnlyCount = 7 \<rparr>)(5 := \<lparr> readWriteDB = Some 10, readOnlyDBs = [Some 20, Some 30], totalConnections = 3, readOnlyCount = 8 \<rparr>)" and k = 2 and cs = "[Some 20, Some 30]" and ?d2.0 = "\<lparr> readWriteDB = Some 10, readOnlyDBs = [Some 20, Some 30], totalConnections = 3, readOnlyCount = 9 \<rparr>"
        and ?f1.0 = "\<lambda>c query args. (c, query, args)" and query = "''SELECT 1''" and args = "[True]"
        and ?r1.0 = "(Some 20, ''SELECT 1'', [True])" and ?d3.0 = "\<lparr> readWriteDB = Some 10, readOnlyDBs = [Some 20, Some 30], totalConnections = 3, readOnlyCount = 8 \<rparr>"
        and ?g1.0 = "\<lambda>c args. (c, args)" and ?r3.0 = "(Some 20, [True])"
        and ?h3.0 = "(\<lambda>a. \<lparr> readWriteDB = Some 10, readOnlyDBs = [Some 20, Some 30], totalConnections = 3, readOnlyCount = 7 \<rparr>)(5 := \<lparr> readWriteDB = Some 10, readOnlyDBs = [Some 20, Some 30], totalConnections = 3, readOnlyCount = 8 \<rparr>)"
        and m = 2 and turns = "[1, 0]" and ?c0.0 = 7 and ?r0.0 = 0
        and dbs = "[Some 10, Some 20, Some 30]" and ?d0.0 = "\<lparr> readWriteDB = Some 10, readOnlyDBs = [Some 20, Some 30], totalConnections = 3, readOnlyCount = 0 \<rparr>"]
  by (simp add: calls roundRobin_def Let_def ReadOnly_def index_def ROStmt_def through_def
          Query_def stmt_Query_def WrapDBs_def)
qed

text \<open>
  The claim as written fails in two places. A read on a set without replicas is a
  read-routing call and does not touch the counter; and a read made when the counter
  holds \<open>2^64 - 1\<close> leaves 0, a smaller value.
\<close>

theorem counter_counterexample:
  "ReadOnly \<lparr> readWriteDB = Some 10, readOnlyDBs = [], totalConnections = 1, readOnlyCount = 7 \<rparr> = Inr (Some 10, \<lparr> readWriteDB = Some 10, readOnlyDBs = [], totalConnections = 1, readOnlyCount = 7 \<rparr>)
   \<and> ReadOnly \<lparr> readWriteDB = Some 10, readOnlyDBs = [Some 20, Some 30], totalConnections = 3, readOnlyCount = 18446744073709551615 \<rparr> = Inr (Some 20, \<lparr> readWriteDB = Some 10, readOnlyDBs = [Some 20, Some 30], totalConnections = 3, readOnlyCount = 0 \<rparr>)
   \<and> unat (readOnlyCount \<lparr> readWriteDB = Some 10, readOnlyDBs = [Some 20, Some 30], totalConnections = 3, readOnlyCount = 0 \<rparr>) < unat (readOnlyCount \<lparr> readWriteDB = Some 10, readOnlyDBs = [Some 20, Some 30], totalConnections = 3, readOnlyCount = 18446744073709551615 \<rparr>)"
  by (simp add: ReadOnly_def roundRobin_def Let_def index_def)

end
